theory Spec2Isabelle
  imports Main "HOL-Library.AList"
begin

section \<open>Strings\<close>

text \<open>
  Go strings are byte sequences; they are modelled as \<open>string\<close> (a list of characters).
  The three functions of package \<open>strings\<close> that the page scanner calls:
  \<^verbatim>\<open>HasPrefix(s, p)\<close> is \<^verbatim>\<open>len(s) >= len(p) && s[:len(p)] == p\<close>,
  \<^verbatim>\<open>TrimPrefix\<close> and \<^verbatim>\<open>TrimSuffix\<close> remove the given prefix or suffix once when it
  is there and return \<open>s\<close> unchanged otherwise.
\<close>

definition HasPrefix :: "string \<Rightarrow> string \<Rightarrow> bool" where
  "HasPrefix s p = (take (length p) s = p)"

definition HasSuffix :: "string \<Rightarrow> string \<Rightarrow> bool" where
  "HasSuffix s x = (length x \<le> length s \<and> drop (length s - length x) s = x)"

definition TrimPrefix :: "string \<Rightarrow> string \<Rightarrow> string" where
  "TrimPrefix s p = (if HasPrefix s p then drop (length p) s else s)"

definition TrimSuffix :: "string \<Rightarrow> string \<Rightarrow> string" where
  "TrimSuffix s x = (if HasSuffix s x then take (length s - length x) s else s)"

section \<open>Tokens of the markup stream\<close>

text \<open>
  The tokenizer is a collaborator of the scanner. A token carries its kind, the tag name
  (\<open>Data\<close>) and the attributes in document order; an attribute is a key and a value.
\<close>

datatype TokenType =
  ErrorToken | TextToken | StartTagToken | EndTagToken | SelfClosingTagToken
  | CommentToken | DoctypeToken

record Attribute =
  Key :: string
  Val :: string

record Token =
  Type :: TokenType
  Data :: string
  Attr :: "Attribute list"

section \<open>URLs and the URL library\<close>

text \<open>
  \<open>URL\<close> has the fields of the library's parsed URL that the scanner or the resolution
  of references reads. The library itself (\<^verbatim>\<open>url.Parse\<close>, \<^verbatim>\<open>(*URL).String\<close>,
  \<^verbatim>\<open>(*URL).ResolveReference\<close>) is not part of the repository: the scanner takes it as a
  parameter \<open>L\<close>, so that what is proved for every \<open>L\<close> holds whatever the library
  answers. \<open>url_Parse L s = None\<close> stands for a parse error.
\<close>

record URL =
  Scheme :: string
  Opaque :: string
  Host :: string
  Path :: string
  OmitHost :: bool
  ForceQuery :: bool
  RawQuery :: string
  Fragment :: string

record urllib =
  url_Parse :: "string \<Rightarrow> URL option"
  url_String :: "URL \<Rightarrow> string"
  url_ResolveReference :: "URL \<Rightarrow> URL \<Rightarrow> URL"

text \<open>\<^verbatim>\<open>func (u *URL) IsAbs() bool { return u.Scheme != "" }\<close>\<close>

definition IsAbs :: "URL \<Rightarrow> bool" where
  "IsAbs u = (Scheme u \<noteq> [])"

section \<open>Errors\<close>

text \<open>
  Every error value the program creates. \<open>ErrUrlParse s\<close> is the library's error for the
  string \<open>s\<close>; \<open>ErrTransport s\<close> is a failed retrieval of \<open>s\<close>.
\<close>

datatype error =
  ErrTargetedNotFound
  | ErrAnchor
  | ErrExternal
  | ErrSrcNotFound
  | ErrUrlParse string
  | ErrTransport string
  | ErrUsage

section \<open>The page scanner\<close>

subsection \<open>Resource tokens\<close>

definition isResourceToken :: "Token \<Rightarrow> bool" where
  "isResourceToken token =
     (if Type token = SelfClosingTagToken \<and> Data token = ''img'' then True
      else if Type token = StartTagToken then
        (if Data token \<in> {''iframe'', ''object'', ''video'', ''audio'', ''source'', ''track''}
         then True else False)
      else False)"

definition isTargetedResourceTokenAttribute :: "Token \<Rightarrow> Attribute \<Rightarrow> bool" where
  "isTargetedResourceTokenAttribute token attribute =
     (if Data token = ''object'' \<and> Key attribute = ''data'' then True
      else if Key attribute = ''src'' \<or> Key attribute = ''poster'' then True
      else False)"

text \<open>
  The loop of \<^verbatim>\<open>processResourceToken\<close> over the attributes. \<open>result\<close> is the Go map
  from attribute key to URL, kept as an association list with one entry per key
  (\<open>AList.update\<close> overwrites the entry of a key that is already there).
\<close>

fun processResourceToken_loop ::
  "urllib \<Rightarrow> Token \<Rightarrow> Attribute list \<Rightarrow> (string \<times> string) list \<Rightarrow> (string \<times> string) list"
where
  "processResourceToken_loop L token [] result = result"
| "processResourceToken_loop L token (attr # rest) result =
     (if \<not> isTargetedResourceTokenAttribute token attr
      then processResourceToken_loop L token rest result
      else (case url_Parse L (Val attr) of
          None \<Rightarrow> processResourceToken_loop L token rest result
        | Some uri \<Rightarrow>
            if \<not> IsAbs uri \<or> Scheme uri = ''https''
               \<or> (Host uri \<noteq> [] \<and> HasPrefix (url_String L uri) ''//'')
            then processResourceToken_loop L token rest result
            else processResourceToken_loop L token rest
                   (AList.update (Key attr) (url_String L uri) result)))"

definition processResourceToken :: "urllib \<Rightarrow> Token \<Rightarrow> error + (string \<times> string) list" where
  "processResourceToken L token =
     (let result = processResourceToken_loop L token (Attr token) [] in
      if length result = 0 then Inl ErrTargetedNotFound else Inr result)"

subsection \<open>Link tokens\<close>

definition isLinkToken :: "Token \<Rightarrow> bool" where
  "isLinkToken token = (if Type token = StartTagToken \<and> Data token = ''a'' then True else False)"

definition convertToAbsolute :: "urllib \<Rightarrow> URL \<Rightarrow> URL \<Rightarrow> URL" where
  "convertToAbsolute L source base = url_ResolveReference L base source"

text \<open>
  The loop of \<^verbatim>\<open>processLinkToken\<close>: the first attribute named \<open>href\<close> decides, every
  branch for it returns.
\<close>

fun processLinkToken_loop :: "urllib \<Rightarrow> string \<Rightarrow> Attribute list \<Rightarrow> error + string" where
  "processLinkToken_loop L base [] = Inl ErrSrcNotFound"
| "processLinkToken_loop L base (attr # rest) =
     (if Key attr \<noteq> ''href'' then processLinkToken_loop L base rest
      else if HasPrefix (Val attr) ''#'' then Inl ErrAnchor
      else (case url_Parse L (Val attr) of
          None \<Rightarrow> Inl (ErrUrlParse (Val attr))
        | Some uri \<Rightarrow>
            (case url_Parse L base of
               None \<Rightarrow> Inl (ErrUrlParse base)
             | Some baseUrl \<Rightarrow>
                 if IsAbs uri \<or> (Host uri \<noteq> [] \<and> HasPrefix (url_String L uri) ''//'')
                 then
                   (if TrimPrefix (Host uri) ''www.'' \<noteq> TrimPrefix (Host baseUrl) ''www.''
                    then Inl ErrExternal
                    else Inr (TrimSuffix (url_String L uri) ''/''))
                 else Inr (TrimSuffix (url_String L (convertToAbsolute L uri baseUrl)) ''/''))))"

definition processLinkToken :: "urllib \<Rightarrow> Token \<Rightarrow> string \<Rightarrow> error + string" where
  "processLinkToken L token base = processLinkToken_loop L base (Attr token)"

subsection \<open>Parse\<close>

text \<open>
  The token stream of one page is the list of the tokens the tokenizer hands out before
  its input ends; past the end of the list \<^verbatim>\<open>Next\<close> answers \<open>ErrorToken\<close> (end of
  input), and a token of kind \<open>ErrorToken\<close> inside the list is a terminal tokenizer error.
  \<^verbatim>\<open>resourceMap\<close> and \<^verbatim>\<open>linkMap\<close> only ever map a key to \<^verbatim>\<open>true\<close>, and the slices
  built from them come in the map's iteration order, which Go leaves open: both are sets.
  The third component of the result is the returned \<^verbatim>\<open>err\<close>, \<open>None\<close> for \<^verbatim>\<open>nil\<close>.
\<close>

fun Parse_loop ::
  "urllib \<Rightarrow> string \<Rightarrow> Token list \<Rightarrow> string set \<times> string set \<Rightarrow> string set \<times> string set"
where
  "Parse_loop L baseUrl [] (resourceMap, linkMap) = (resourceMap, linkMap)"
| "Parse_loop L baseUrl (token # page) (resourceMap, linkMap) =
     (if Type token = ErrorToken then (resourceMap, linkMap)
      else if isResourceToken token then
        (case processResourceToken L token of
           Inl err \<Rightarrow> Parse_loop L baseUrl page (resourceMap, linkMap)
         | Inr uris \<Rightarrow> Parse_loop L baseUrl page (resourceMap \<union> set (map snd uris), linkMap))
      else if isLinkToken token then
        (case processLinkToken L token baseUrl of
           Inl err \<Rightarrow> Parse_loop L baseUrl page (resourceMap, linkMap)
         | Inr uri \<Rightarrow> Parse_loop L baseUrl page (resourceMap, insert uri linkMap))
      else Parse_loop L baseUrl page (resourceMap, linkMap))"

definition Parse :: "urllib \<Rightarrow> string \<Rightarrow> Token list \<Rightarrow> string set \<times> string set \<times> error option" where
  "Parse L baseUrl httpBody =
     (case Parse_loop L baseUrl httpBody ({}, {}) of
        (resourceUrls, linkUrls) \<Rightarrow> (resourceUrls, linkUrls, None))"

section \<open>A model of the URL library\<close>

text \<open>
  To run the scanner on concrete pages, \<open>go_url\<close> models the library on a fragment of
  its inputs: references written \<open>[scheme ":"] ["//" host [":" port]] path ["?" query]
  ["#" fragment]\<close> over the characters of \<open>plain_chars\<close>, which the library neither
  escapes nor unescapes. User information (\<open>@\<close>), percent escapes and bracketed address
  literals are outside the fragment: \<open>go_Parse\<close> answers \<open>None\<close> on them, and nothing
  is derived from that answer. The model follows the library's own steps
  (\<^verbatim>\<open>getScheme\<close>, \<^verbatim>\<open>parse\<close>, \<^verbatim>\<open>String\<close>, \<^verbatim>\<open>resolvePath\<close>,
  \<^verbatim>\<open>ResolveReference\<close>); \<open>OmitHost\<close> is the library's flag for \<open>scheme:/path\<close>.
\<close>

definition letters :: string where
  "letters = ''abcdefghijklmnopqrstuvwxyzABCDEFGHIJKLMNOPQRSTUVWXYZ''"

definition digits :: string where
  "digits = ''0123456789''"

definition plain_chars :: string where
  "plain_chars = letters @ digits @ ''-._~/?#:=&+,;!*()$''"

definition ToLower :: "string \<Rightarrow> string" where
  "ToLower s =
     map (\<lambda>c. case map_of (zip ''ABCDEFGHIJKLMNOPQRSTUVWXYZ'' ''abcdefghijklmnopqrstuvwxyz'') c of
                 None \<Rightarrow> c | Some l \<Rightarrow> l) s"

text \<open>\<^verbatim>\<open>strings.Cut(s, sep)\<close> for a separator of one byte: before, after, found.\<close>

definition Cut :: "string \<Rightarrow> char \<Rightarrow> string \<times> string \<times> bool" where
  "Cut s sep = (takeWhile (\<lambda>c. c \<noteq> sep) s, drop 1 (dropWhile (\<lambda>c. c \<noteq> sep) s), sep \<in> set s)"

text \<open>
  \<^verbatim>\<open>getScheme\<close>: \<open>pre\<close> is the part of \<open>rawURL\<close> already read. \<open>None\<close> is the
  error "missing protocol scheme" (a colon first).
\<close>

fun getScheme_loop :: "string \<Rightarrow> string \<Rightarrow> string \<Rightarrow> (string \<times> string) option" where
  "getScheme_loop rawURL pre [] = Some ([], rawURL)"
| "getScheme_loop rawURL pre (c # cs) =
     (if c \<in> set letters then getScheme_loop rawURL (pre @ [c]) cs
      else if c \<in> set digits \<or> c = CHR ''+'' \<or> c = CHR ''-'' \<or> c = CHR ''.'' then
        (if pre = [] then Some ([], rawURL) else getScheme_loop rawURL (pre @ [c]) cs)
      else if c = CHR '':'' then (if pre = [] then None else Some (pre, cs))
      else Some ([], rawURL))"

definition getScheme :: "string \<Rightarrow> (string \<times> string) option" where
  "getScheme rawURL = getScheme_loop rawURL [] rawURL"

definition validOptionalPort :: "string \<Rightarrow> bool" where
  "validOptionalPort port =
     (case port of [] \<Rightarrow> True
      | c # ds \<Rightarrow> c = CHR '':'' \<and> list_all (\<lambda>d. d \<in> set digits) ds)"

text \<open>\<^verbatim>\<open>parseHost\<close> without address literals: only the port after the last colon is checked.\<close>

definition parseHost :: "string \<Rightarrow> string option" where
  "parseHost host =
     (if CHR '':'' \<in> set host
         \<and> \<not> validOptionalPort (CHR '':'' # rev (takeWhile (\<lambda>c. c \<noteq> CHR '':'') (rev host)))
      then None else Some host)"

definition empty_URL :: URL where
  "empty_URL = \<lparr>Scheme = [], Opaque = [], Host = [], Path = [], OmitHost = False,
     ForceQuery = False, RawQuery = [], Fragment = []\<rparr>"

text \<open>\<^verbatim>\<open>parse(rawURL, viaRequest = false)\<close>, on a string without its fragment.\<close>

definition go_parse :: "string \<Rightarrow> URL option" where
  "go_parse rawURL =
     (if rawURL = ''*'' then Some (empty_URL\<lparr>Path := ''*''\<rparr>)
      else (case getScheme rawURL of
          None \<Rightarrow> None
        | Some (scheme0, rest0) \<Rightarrow>
            let scheme = ToLower scheme0;
                force = (HasSuffix rest0 ''?'' \<and> count_list rest0 (CHR ''?'') = 1);
                rest1 = (if force then butlast rest0 else fst (Cut rest0 (CHR ''?'')));
                query = (if force then [] else fst (snd (Cut rest0 (CHR ''?''))));
                url = empty_URL\<lparr>Scheme := scheme, ForceQuery := force, RawQuery := query\<rparr>
            in
            if \<not> HasPrefix rest1 ''/'' \<and> scheme \<noteq> [] then Some (url\<lparr>Opaque := rest1\<rparr>)
            else if \<not> HasPrefix rest1 ''/'' \<and> CHR '':'' \<in> set (fst (Cut rest1 (CHR ''/'')))
            then None
            else if (scheme \<noteq> [] \<or> \<not> HasPrefix rest1 ''///'') \<and> HasPrefix rest1 ''//'' then
              (let authority = fst (Cut (drop 2 rest1) (CHR ''/''));
                   rest2 = dropWhile (\<lambda>c. c \<noteq> CHR ''/'') (drop 2 rest1)
               in case parseHost authority of
                    None \<Rightarrow> None
                  | Some h \<Rightarrow> Some (url\<lparr>Host := h, Path := rest2\<rparr>))
            else if scheme \<noteq> [] \<and> HasPrefix rest1 ''/'' then
              Some (url\<lparr>OmitHost := True, Path := rest1\<rparr>)
            else Some (url\<lparr>Path := rest1\<rparr>)))"

text \<open>\<^verbatim>\<open>url.Parse\<close>: the fragment is cut off first and set on the parsed URL.\<close>

definition go_Parse :: "string \<Rightarrow> URL option" where
  "go_Parse rawURL =
     (if \<not> list_all (\<lambda>c. c \<in> set plain_chars) rawURL then None
      else (case go_parse (fst (Cut rawURL (CHR ''#''))) of
          None \<Rightarrow> None
        | Some url \<Rightarrow> Some (url\<lparr>Fragment := fst (snd (Cut rawURL (CHR ''#'')))\<rparr>)))"

text \<open>\<^verbatim>\<open>(*URL).String\<close>; on the fragment the escaped path is the path.\<close>

definition go_String :: "URL \<Rightarrow> string" where
  "go_String u =
     (let buf0 = (if Scheme u \<noteq> [] then Scheme u @ '':'' else []);
          buf1 =
            (if Opaque u \<noteq> [] then buf0 @ Opaque u
             else
               (let buf2 =
                      (if Scheme u \<noteq> [] \<or> Host u \<noteq> [] then
                         (if OmitHost u \<and> Host u = [] then buf0
                          else (if Host u \<noteq> [] \<or> Path u \<noteq> [] then buf0 @ ''//'' else buf0)
                               @ Host u)
                       else buf0);
                    buf3 =
                      (if Path u \<noteq> [] \<and> hd (Path u) \<noteq> CHR ''/'' \<and> Host u \<noteq> []
                       then buf2 @ ''/'' else buf2);
                    buf4 =
                      (if buf3 = [] \<and> CHR '':'' \<in> set (fst (Cut (Path u) (CHR ''/'')))
                       then buf3 @ ''./'' else buf3)
                in buf4 @ Path u));
          buf5 = (if ForceQuery u \<or> RawQuery u \<noteq> [] then buf1 @ ''?'' @ RawQuery u else buf1)
      in if Fragment u \<noteq> [] then buf5 @ ''#'' @ Fragment u else buf5)"

text \<open>
  \<^verbatim>\<open>resolvePath\<close>. \<open>str\<close> is what the builder holds after the leading slash, \<open>first\<close>
  and \<open>elem\<close> are the loop's variables; the loop runs once per segment of \<open>full\<close>.
\<close>

fun split_slash :: "string \<Rightarrow> string list" where
  "split_slash [] = [[]]"
| "split_slash (c # cs) =
     (if c = CHR ''/'' then [] # split_slash cs
      else (case split_slash cs of seg # segs \<Rightarrow> (c # seg) # segs | [] \<Rightarrow> [[c]]))"

fun resolvePath_loop :: "string list \<Rightarrow> string \<Rightarrow> bool \<Rightarrow> string \<Rightarrow> string \<times> string" where
  "resolvePath_loop [] str first elem = (str, elem)"
| "resolvePath_loop (e # es) str first elem =
     (if e = ''.'' then resolvePath_loop es str False e
      else if e = ''..'' then
        (if CHR ''/'' \<notin> set str then resolvePath_loop es [] True e
         else resolvePath_loop es
                (butlast (rev (dropWhile (\<lambda>c. c \<noteq> CHR ''/'') (rev str)))) first e)
      else resolvePath_loop es ((if \<not> first then str @ ''/'' else str) @ e) False e)"

definition resolvePath :: "string \<Rightarrow> string \<Rightarrow> string" where
  "resolvePath base ref =
     (let full =
            (if ref = [] then base
             else if hd ref \<noteq> CHR ''/''
             then rev (dropWhile (\<lambda>c. c \<noteq> CHR ''/'') (rev base)) @ ref
             else ref)
      in if full = [] then []
         else (case resolvePath_loop (split_slash full) [] True [] of
             (str, elem) \<Rightarrow>
               let r = CHR ''/'' # (if elem = ''.'' \<or> elem = ''..'' then str @ ''/'' else str)
               in if length r > 1 \<and> r ! 1 = CHR ''/'' then drop 1 r else r))"

text \<open>\<^verbatim>\<open>u.ResolveReference(ref)\<close>, with \<open>u\<close> the base.\<close>

definition go_ResolveReference :: "URL \<Rightarrow> URL \<Rightarrow> URL" where
  "go_ResolveReference u ref =
     (let url = (if Scheme ref = [] then ref\<lparr>Scheme := Scheme u\<rparr> else ref) in
      if Scheme ref \<noteq> [] \<or> Host ref \<noteq> [] then url\<lparr>Path := resolvePath (Path ref) []\<rparr>
      else if Opaque ref \<noteq> [] then url\<lparr>Host := [], Path := []\<rparr>
      else
        (let url1 =
               (if Path ref = [] \<and> \<not> ForceQuery ref \<and> RawQuery ref = [] then
                  (if Fragment ref = [] then url\<lparr>RawQuery := RawQuery u, Fragment := Fragment u\<rparr>
                   else url\<lparr>RawQuery := RawQuery u\<rparr>)
                else url)
         in if Path ref = [] \<and> Opaque u \<noteq> []
            then url1\<lparr>Opaque := Opaque u, Host := [], Path := []\<rparr>
            else url1\<lparr>Host := Host u, Path := resolvePath (Path u) (Path ref)\<rparr>))"

definition go_url :: urllib where
  "go_url = \<lparr>url_Parse = go_Parse, url_String = go_String,
     url_ResolveReference = go_ResolveReference\<rparr>"

section \<open>The crawl scheduler\<close>

subsection \<open>The registry and the fetcher\<close>

text \<open>
  Modelled from the spec: the type \<^verbatim>\<open>Registry\<close> and its methods \<^verbatim>\<open>IsNew\<close> and
  \<^verbatim>\<open>MarkAsProcessed\<close> are not among the sources; only the field
  \<^verbatim>\<open>processed map[string]int\<close> and the two calls are. The spec describes the registry
  as the set of URLs admitted for fetching, with a membership check and an insertion:
  \<open>IsNew\<close> is the check (the URL is not a key of \<open>processed\<close>) and
  \<open>MarkAsProcessed\<close> the insertion. The integer stored is a marker.
\<close>

record Registry =
  processed :: "string \<rightharpoonup> int"

definition IsNew :: "Registry \<Rightarrow> string \<Rightarrow> bool" where
  "IsNew r url = (processed r url = None)"

definition MarkAsProcessed :: "Registry \<Rightarrow> string \<Rightarrow> Registry" where
  "MarkAsProcessed r url = r\<lparr>processed := (processed r)(url \<mapsto> 1)\<rparr>"

text \<open>
  \<^verbatim>\<open>InsecureResourceFetcher.Fetch\<close> is not among the sources either: the crawl takes it
  as a parameter, a function from a URL to an error or to the insecure resource URLs and
  the page URLs found there.
\<close>

type_synonym fetcher = "string \<Rightarrow> error + (string list \<times> string list)"

subsection \<open>One goroutine: fetchUrl\<close>

text \<open>
  What the program writes to its standard output, line by line. \<^verbatim>\<open>fmt.Errorf\<close> formats
  an error value and returns it; it writes nothing, and \<^verbatim>\<open>fetchUrl\<close> drops the value.
\<close>

datatype out_line =
  Finding string string
  | Separator
  | LogHeader
  | RegistryDump Registry
  | ErrorLine error

text \<open>
  \<^verbatim>\<open>fetchUrl\<close> up to its last loop: the registry after \<^verbatim>\<open>MarkAsProcessed\<close>, the lines
  printed, and the URLs the last loop will send on the queue, one at a time.
\<close>

definition fetchUrl :: "fetcher \<Rightarrow> string \<Rightarrow> Registry \<Rightarrow> Registry \<times> out_line list \<times> string list" where
  "fetchUrl fetch url registry =
     (let registry' = MarkAsProcessed registry url in
      case fetch url of
        Inl err \<Rightarrow> (registry', [], [])
      | Inr (insecureResourceUrls, pageUrls) \<Rightarrow>
          (registry', map (Finding url) insecureResourceUrls, pageUrls))"

subsection \<open>The crawl as interleaved steps\<close>

text \<open>
  The state of a running crawl: the shared registry, the scheduler's \<open>flag\<close>, whether
  \<^verbatim>\<open>crawl\<close> has returned, the goroutines created by \<^verbatim>\<open>go fetchUrl(url, ...)\<close> that have
  not run yet (\<open>spawned\<close>, each with its URL), the goroutines inside their sending loop
  (\<open>sending\<close>, each with the URLs it still has to send; the queue is unbuffered, so a
  send waits for the scheduler's receive), the output so far, and the argument of every
  call of the fetcher so far (\<open>fetches\<close>, kept for the statements only).

  An event is one step of one thread, chosen by the runtime:
  \<^item> \<open>Run n\<close>: the \<open>n\<close>-th goroutine of \<open>spawned\<close> runs \<^verbatim>\<open>fetchUrl\<close> up to its sending loop;
  \<^item> \<open>Recv n\<close>: the scheduler's \<^verbatim>\<open>select\<close> receives the next URL of the \<open>n\<close>-th sending
    goroutine (the case \<^verbatim>\<open>url := <-queue\<close>);
  \<^item> \<open>Tick\<close>: the \<^verbatim>\<open>select\<close> takes the case \<^verbatim>\<open><-tick\<close>.
  \<open>step\<close> is \<open>None\<close> for an event that cannot happen in the state; once \<^verbatim>\<open>crawl\<close> has
  returned the process exits, and nothing happens any more.
\<close>

record crawl_state =
  registry :: Registry
  flag :: bool
  returned :: bool
  spawned :: "string list"
  sending :: "string list list"
  stdout :: "out_line list"
  fetches :: "string list"

datatype event = Run nat | Recv nat | Tick

definition remove_nth :: "nat \<Rightarrow> 'a list \<Rightarrow> 'a list" where
  "remove_nth n xs = take n xs @ drop (Suc n) xs"

definition step :: "fetcher \<Rightarrow> event \<Rightarrow> crawl_state \<Rightarrow> crawl_state option" where
  "step fetch ev s =
     (if returned s then None
      else (case ev of
          Run n \<Rightarrow>
            if n < length (spawned s) then
              (case fetchUrl fetch (spawned s ! n) (registry s) of
                 (registry', printed, pageUrls) \<Rightarrow>
                   Some (s\<lparr>registry := registry',
                           spawned := remove_nth n (spawned s),
                           sending := (if pageUrls = [] then sending s else sending s @ [pageUrls]),
                           stdout := stdout s @ printed,
                           fetches := fetches s @ [spawned s ! n]\<rparr>))
            else None
        | Recv n \<Rightarrow>
            if n < length (sending s) then
              (case sending s ! n of
                 [] \<Rightarrow> None
               | url # pending \<Rightarrow>
                   let s1 = s\<lparr>flag := False,
                              sending := (if pending = [] then remove_nth n (sending s)
                                          else (sending s)[n := pending])\<rparr>
                   in if \<not> IsNew (registry s) url then Some s1
                      else Some (s1\<lparr>spawned := spawned s1 @ [url]\<rparr>))
            else None
        | Tick \<Rightarrow>
            if flag s then
              Some (s\<lparr>returned := True,
                      stdout := stdout s @ [Separator, LogHeader, RegistryDump (registry s)]\<rparr>)
            else Some (s\<lparr>flag := True\<rparr>)))"

fun run :: "fetcher \<Rightarrow> event list \<Rightarrow> crawl_state \<Rightarrow> crawl_state option" where
  "run fetch [] s = Some s"
| "run fetch (ev # evs) s =
     (case step fetch ev s of None \<Rightarrow> None | Some s' \<Rightarrow> run fetch evs s')"

text \<open>
  \<^verbatim>\<open>crawl\<close>: an empty registry, the goroutine for the start URL, \<open>flag\<close> false, then
  the loop, here driven by the events \<open>evs\<close>.
\<close>

definition crawl_init :: "string \<Rightarrow> crawl_state" where
  "crawl_init url = \<lparr>registry = \<lparr>processed = Map.empty\<rparr>, flag = False, returned = False,
     spawned = [url], sending = [], stdout = [], fetches = []\<rparr>"

definition crawl :: "fetcher \<Rightarrow> string \<Rightarrow> event list \<Rightarrow> crawl_state option" where
  "crawl fetch url evs = run fetch evs (crawl_init url)"

subsection \<open>The process\<close>

definition startUrl :: "string list \<Rightarrow> string \<times> error option" where
  "startUrl args = (if length args < 1 then ([], Some ErrUsage) else (args ! 0, None))"

text \<open>
  The process as far as the events \<open>evs\<close> take it: what it has printed, its exit code
  (\<open>None\<close> while it runs; falling off the end of \<^verbatim>\<open>main\<close> is exit code 0) and every
  retrieval it has attempted. The result is \<open>None\<close> when the events cannot happen.
\<close>

record process =
  printed :: "out_line list"
  exit_code :: "nat option"
  attempted :: "string list"

definition main :: "fetcher \<Rightarrow> string list \<Rightarrow> event list \<Rightarrow> process option" where
  "main fetch args evs =
     (case startUrl args of
        (url, Some err) \<Rightarrow> Some \<lparr>printed = [ErrorLine err], exit_code = Some 1, attempted = []\<rparr>
      | (url, None) \<Rightarrow>
          (case crawl fetch url evs of
             None \<Rightarrow> None
           | Some s \<Rightarrow>
               Some \<lparr>printed = stdout s,
                     exit_code = (if returned s then Some 0 else None),
                     attempted = fetches s\<rparr>))"

text \<open>
  The scheduler as the spec words it: a counter of consecutive silent polling intervals,
  read off the events from the most recent one backwards. A queue arrival sets it to
  zero, a tick adds one, a goroutine's own step leaves it alone.
\<close>

fun consecutive_silence :: "event list \<Rightarrow> nat" where
  "consecutive_silence [] = 0"
| "consecutive_silence (Recv n # earlier) = 0"
| "consecutive_silence (Tick # earlier) = Suc (consecutive_silence earlier)"
| "consecutive_silence (Run n # earlier) = consecutive_silence earlier"

section \<open>What the spec says, and concrete inputs\<close>

text \<open>
  The definitions of this section are not code of the program. They word what the
  spec says, to be compared with the program, or fix inputs to run the program on.
\<close>

text \<open>A fetcher for which every retrieval fails.\<close>

definition failing :: fetcher where
  "failing url = Inl (ErrTransport url)"

text \<open>
  A site of four pages: the start page links to \<open>/a\<close> and \<open>/b\<close>, and both of these
  link to \<open>/u\<close>. No page holds an insecure resource.
\<close>

definition shared_link_site :: fetcher where
  "shared_link_site url =
     (if url = ''https://e.com'' then Inr ([], [''https://e.com/a'', ''https://e.com/b''])
      else if url = ''https://e.com/a'' then Inr ([], [''https://e.com/u''])
      else if url = ''https://e.com/b'' then Inr ([], [''https://e.com/u''])
      else Inr ([], []))"

text \<open>
  Everything the scanner collects from a page: the tokens read are those before the
  first \<open>ErrorToken\<close>; a resource token contributes the URLs \<^verbatim>\<open>processResourceToken\<close>
  returns, a link token the URL \<^verbatim>\<open>processLinkToken\<close> returns, and a token whose
  processing fails contributes nothing.
\<close>

definition collected_resources :: "urllib \<Rightarrow> Token list \<Rightarrow> string set" where
  "collected_resources L page =
     (\<Union>token \<in> set (filter isResourceToken (takeWhile (\<lambda>t. Type t \<noteq> ErrorToken) page)).
        case processResourceToken L token of Inl err \<Rightarrow> {} | Inr uris \<Rightarrow> set (map snd uris))"

definition collected_links :: "urllib \<Rightarrow> string \<Rightarrow> Token list \<Rightarrow> string set" where
  "collected_links L baseUrl page =
     (\<Union>token \<in> set (filter (\<lambda>t. \<not> isResourceToken t \<and> isLinkToken t)
                         (takeWhile (\<lambda>t. Type t \<noteq> ErrorToken) page)).
        case processLinkToken L token baseUrl of Inl err \<Rightarrow> {} | Inr uri \<Rightarrow> {uri})"

text \<open>
  The classification of one attribute of a resource token: the URL reported for it, if
  any. \<open>reported_last L token k attrs\<close> is the URL reported for the last attribute with
  key \<open>k\<close> for which one is reported.
\<close>

definition reported_candidate :: "urllib \<Rightarrow> Token \<Rightarrow> Attribute \<Rightarrow> string option" where
  "reported_candidate L token attr =
     (if isTargetedResourceTokenAttribute token attr then
        (case url_Parse L (Val attr) of
           None \<Rightarrow> None
         | Some uri \<Rightarrow>
             if Scheme uri \<noteq> [] \<and> Scheme uri \<noteq> ''https''
                \<and> \<not> (Host uri \<noteq> [] \<and> HasPrefix (url_String L uri) ''//'')
             then Some (url_String L uri) else None)
      else None)"

fun reported_last :: "urllib \<Rightarrow> Token \<Rightarrow> string \<Rightarrow> Attribute list \<Rightarrow> string option" where
  "reported_last L token k [] = None"
| "reported_last L token k (attr # rest) =
     (case reported_last L token k rest of
        Some v \<Rightarrow> Some v
      | None \<Rightarrow> if Key attr = k then reported_candidate L token attr else None)"

text \<open>The candidate of an anchor token: the value of its first \<open>href\<close> attribute.\<close>

definition first_href :: "Attribute list \<Rightarrow> string option" where
  "first_href attrs =
     (case filter (\<lambda>attr. Key attr = ''href'') attrs of [] \<Rightarrow> None | attr # rest \<Rightarrow> Some (Val attr))"

text \<open>
  An in-scope link as the spec words it: the candidate is not an in-page anchor, it
  parses, and resolved against the base it is an absolute URL whose host is the base's
  host, a leading \<open>www.\<close> ignored on both sides.
\<close>

definition in_scope_link :: "urllib \<Rightarrow> string \<Rightarrow> string \<Rightarrow> bool" where
  "in_scope_link L base href =
     (\<not> HasPrefix href ''#'' \<and>
      (case url_Parse L href of
         None \<Rightarrow> False
       | Some uri \<Rightarrow>
           (case url_Parse L base of
              None \<Rightarrow> False
            | Some baseUrl \<Rightarrow>
                IsAbs (url_ResolveReference L baseUrl uri) \<and>
                TrimPrefix (Host (url_ResolveReference L baseUrl uri)) ''www.''
                  = TrimPrefix (Host baseUrl) ''www.'')))"

text \<open>
  What the statement about in-scope links takes from the library for one base and one
  candidate, in the words of RFC 3986: the base, the URL of a fetched page, is absolute;
  so is every reference resolved against it; the resolved reference keeps its own host
  when it has a scheme or a host and takes the base's host otherwise; and a reference
  with a host and no scheme is written with a leading \<open>//\<close>.
\<close>

definition rfc3986_resolution :: "urllib \<Rightarrow> string \<Rightarrow> string \<Rightarrow> bool" where
  "rfc3986_resolution L base href =
     (\<forall>uri baseUrl. url_Parse L href = Some uri \<longrightarrow> url_Parse L base = Some baseUrl \<longrightarrow>
        IsAbs baseUrl
        \<and> IsAbs (url_ResolveReference L baseUrl uri)
        \<and> Host (url_ResolveReference L baseUrl uri)
            = (if Scheme uri \<noteq> [] \<or> Host uri \<noteq> [] then Host uri else Host baseUrl)
        \<and> (Scheme uri = [] \<longrightarrow> Host uri \<noteq> [] \<longrightarrow> HasPrefix (url_String L uri) ''//''))"

section \<open>Evaluation\<close>

lemmas scanner_defs = isResourceToken_def isLinkToken_def isTargetedResourceTokenAttribute_def
  processResourceToken_def processLinkToken_def convertToAbsolute_def IsAbs_def
  HasPrefix_def HasSuffix_def TrimPrefix_def TrimSuffix_def

lemmas go_defs = go_url_def go_Parse_def go_parse_def go_String_def go_ResolveReference_def
  getScheme_def parseHost_def validOptionalPort_def ToLower_def Cut_def empty_URL_def
  plain_chars_def letters_def digits_def resolvePath_def Let_def

section \<open>Parse and the resource tokens\<close>

lemma Parse_loop_collect:
  "Parse_loop L baseUrl page (resourceMap, linkMap) =
     (resourceMap \<union> collected_resources L page, linkMap \<union> collected_links L baseUrl page)"
proof (induction page arbitrary: resourceMap linkMap)
  case Nil
  then show ?case by (simp add: collected_resources_def collected_links_def)
next
  case (Cons token page)
  show ?case
  proof (cases "Type token = ErrorToken")
    case True
    then show ?thesis by (simp add: collected_resources_def collected_links_def)
  next
    case False
    note ne = False
    show ?thesis
    proof (cases "isResourceToken token")
      case True
      with ne Cons show ?thesis
        by (auto simp: collected_resources_def collected_links_def split: sum.splits)
    next
      case False
      with ne Cons show ?thesis
        by (auto simp: collected_resources_def collected_links_def split: sum.splits)
    qed
  qed
qed

lemma Parse_collect:
  "Parse L baseUrl page = (collected_resources L page, collected_links L baseUrl page, None)"
  by (simp add: Parse_def Parse_loop_collect)

lemma takeWhile_stop:
  "\<not> P e \<Longrightarrow> takeWhile P (before @ e # after) = takeWhile P before"
  by (induction before) auto

text \<open>
  Claim C7. For every base URL and every token stream, \<^verbatim>\<open>Parse\<close> returns no error:
  its result is everything collected from the tokens before the first \<open>ErrorToken\<close>
  (end of input or a terminal tokenizer error), tokens whose classification fails
  contributing nothing; what follows an \<open>ErrorToken\<close> is never read, so a stream cut by
  an error gives the result of the part before the error.
\<close>

theorem Parse_returns_what_was_collected:
  "snd (snd (Parse L baseUrl page)) = None
   \<and> Parse L baseUrl page = (collected_resources L page, collected_links L baseUrl page, None)
   \<and> Parse L baseUrl (before @ \<lparr>Type = ErrorToken, Data = d, Attr = attrs\<rparr> # after)
       = Parse L baseUrl before"
proof -
  have "takeWhile (\<lambda>t. Type t \<noteq> ErrorToken) (before @ \<lparr>Type = ErrorToken, Data = d, Attr = attrs\<rparr> # after)
      = takeWhile (\<lambda>t. Type t \<noteq> ErrorToken) before"
    by (rule takeWhile_stop) simp
  then have "Parse L baseUrl (before @ \<lparr>Type = ErrorToken, Data = d, Attr = attrs\<rparr> # after)
       = Parse L baseUrl before"
    by (simp add: Parse_collect collected_resources_def collected_links_def)
  then show ?thesis by (simp add: Parse_collect)
qed

text \<open>
  Claim C2, as stated, fails: an image written as an ordinary start tag is not a
  resource token, and a page holding only \<^verbatim>\<open><img src="http://insecure.example.com/a.png">\<close>
  yields no insecure resource.
\<close>

theorem img_start_tag_not_resource:
  "\<not> isResourceToken \<lparr>Type = StartTagToken, Data = ''img'',
        Attr = [\<lparr>Key = ''src'', Val = ''http://insecure.example.com/a.png''\<rparr>]\<rparr>
   \<and> Parse go_url ''https://example.com''
        [\<lparr>Type = StartTagToken, Data = ''img'',
          Attr = [\<lparr>Key = ''src'', Val = ''http://insecure.example.com/a.png''\<rparr>]\<rparr>] = ({}, {}, None)"
  by (simp add: isResourceToken_def isLinkToken_def Parse_def)

text \<open>
  Claim C2, amended. A token whose tag name is \<open>img\<close> is resource-bearing exactly when
  it is a self-closing tag token, and it is never link-bearing. As an ordinary start tag
  it is skipped by \<^verbatim>\<open>Parse\<close>; as a self-closing tag its targeted attributes are
  evaluated and the URLs \<^verbatim>\<open>processResourceToken\<close> returns are added to the page's
  insecure resources.
\<close>

theorem img_resource_iff_self_closing:
  "Data token = ''img'' \<Longrightarrow>
     (isResourceToken token \<longleftrightarrow> Type token = SelfClosingTagToken)
   \<and> \<not> isLinkToken token
   \<and> (Type token = StartTagToken \<longrightarrow> Parse L baseUrl (token # page) = Parse L baseUrl page)
   \<and> (Type token = SelfClosingTagToken \<longrightarrow>
        fst (Parse L baseUrl (token # page))
          = (case processResourceToken L token of Inl err \<Rightarrow> {} | Inr uris \<Rightarrow> set (map snd uris))
            \<union> fst (Parse L baseUrl page))"
proof -
  assume d: "Data token = ''img''"
  have r: "isResourceToken token \<longleftrightarrow> Type token = SelfClosingTagToken"
    using d by (simp add: isResourceToken_def)
  have l: "\<not> isLinkToken token" using d by (simp add: isLinkToken_def)
  have skip: "Type token = StartTagToken \<longrightarrow> Parse L baseUrl (token # page) = Parse L baseUrl page"
    using r l by (simp add: Parse_def)
  have keep: "Type token = SelfClosingTagToken \<longrightarrow>
        fst (Parse L baseUrl (token # page))
          = (case processResourceToken L token of Inl err \<Rightarrow> {} | Inr uris \<Rightarrow> set (map snd uris))
            \<union> fst (Parse L baseUrl page)"
  proof
    assume t: "Type token = SelfClosingTagToken"
    with r have rt: "isResourceToken token" by simp
    have "Parse_loop L baseUrl (token # page) ({}, {}) =
        (case processResourceToken L token of
           Inl err \<Rightarrow> Parse_loop L baseUrl page ({}, {})
         | Inr uris \<Rightarrow> Parse_loop L baseUrl page ({} \<union> set (map snd uris), {}))"
      using t rt by simp
    then show "fst (Parse L baseUrl (token # page))
          = (case processResourceToken L token of Inl err \<Rightarrow> {} | Inr uris \<Rightarrow> set (map snd uris))
            \<union> fst (Parse L baseUrl page)"
      by (simp add: Parse_def Parse_loop_collect split: sum.splits)
  qed
  from r l skip keep show ?thesis by blast
qed

theorem img_resource_iff_self_closing_witness:
  "Data \<lparr>Type = SelfClosingTagToken, Data = ''img'',
          Attr = [\<lparr>Key = ''src'', Val = ''http://insecure.example.com/a.png''\<rparr>]\<rparr> = ''img''
   \<and> isResourceToken \<lparr>Type = SelfClosingTagToken, Data = ''img'',
          Attr = [\<lparr>Key = ''src'', Val = ''http://insecure.example.com/a.png''\<rparr>]\<rparr>
   \<and> fst (Parse go_url ''https://example.com''
        [\<lparr>Type = SelfClosingTagToken, Data = ''img'',
          Attr = [\<lparr>Key = ''src'', Val = ''http://insecure.example.com/a.png''\<rparr>]\<rparr>])
       = {''http://insecure.example.com/a.png''}"
proof -
  let ?t = "\<lparr>Type = SelfClosingTagToken, Data = ''img'',
          Attr = [\<lparr>Key = ''src'', Val = ''http://insecure.example.com/a.png''\<rparr>]\<rparr>"
  have d: "Data ?t = ''img''" by simp
  have p: "processResourceToken go_url ?t = Inr [(''src'', ''http://insecure.example.com/a.png'')]"
    by (simp add: scanner_defs go_defs)
  have e: "fst (Parse go_url ''https://example.com'' []) = {}" by (simp add: Parse_def)
  from img_resource_iff_self_closing[OF d, of go_url "''https://example.com''" "[]"] p e d
  show ?thesis by simp
qed

section \<open>The classifier\<close>

lemma TrimSuffix_one_slash: "TrimSuffix (s @ ''/'') ''/'' = s"
  by (simp add: TrimSuffix_def HasSuffix_def)

lemma TrimSuffix_no_slash: "\<not> HasSuffix s ''/'' \<Longrightarrow> TrimSuffix s ''/'' = s"
  by (simp add: TrimSuffix_def)

lemma link_loop_first_href:
  "first_href attrs = Some href \<Longrightarrow>
     processLinkToken_loop L base attrs
       = processLinkToken_loop L base [\<lparr>Key = ''href'', Val = href\<rparr>]"
proof (induction attrs)
  case Nil
  then show ?case by (simp add: first_href_def)
next
  case (Cons attr rest)
  show ?case
  proof (cases "Key attr = ''href''")
    case True
    with Cons.prems have "Val attr = href" by (simp add: first_href_def)
    with True show ?thesis by (simp cong: option.case_cong)
  next
    case False
    with Cons.prems have "first_href rest = Some href" by (simp add: first_href_def)
    with Cons.IH False show ?thesis by simp
  qed
qed

lemma link_loop_no_href:
  "first_href attrs = None \<Longrightarrow> processLinkToken_loop L base attrs = Inl ErrSrcNotFound"
proof (induction attrs)
  case Nil
  then show ?case by simp
next
  case (Cons attr rest)
  then show ?case by (cases "Key attr = ''href''") (simp_all add: first_href_def)
qed

lemma link_single:
  "processLinkToken_loop L base [\<lparr>Key = ''href'', Val = href\<rparr>] =
     (if HasPrefix href ''#'' then Inl ErrAnchor
      else (case url_Parse L href of
          None \<Rightarrow> Inl (ErrUrlParse href)
        | Some uri \<Rightarrow>
            (case url_Parse L base of
               None \<Rightarrow> Inl (ErrUrlParse base)
             | Some baseUrl \<Rightarrow>
                 if IsAbs uri \<or> (Host uri \<noteq> [] \<and> HasPrefix (url_String L uri) ''//'')
                 then
                   (if TrimPrefix (Host uri) ''www.'' \<noteq> TrimPrefix (Host baseUrl) ''www.''
                    then Inl ErrExternal
                    else Inr (TrimSuffix (url_String L uri) ''/''))
                 else Inr (TrimSuffix (url_String L (url_ResolveReference L baseUrl uri)) ''/''))))"
  by (auto simp: convertToAbsolute_def split: option.splits)

lemma link_by_first_href:
  "first_href (Attr token) = Some href \<Longrightarrow>
   processLinkToken L token base =
     (if HasPrefix href ''#'' then Inl ErrAnchor
      else (case url_Parse L href of
          None \<Rightarrow> Inl (ErrUrlParse href)
        | Some uri \<Rightarrow>
            (case url_Parse L base of
               None \<Rightarrow> Inl (ErrUrlParse base)
             | Some baseUrl \<Rightarrow>
                 if IsAbs uri \<or> (Host uri \<noteq> [] \<and> HasPrefix (url_String L uri) ''//'')
                 then
                   (if TrimPrefix (Host uri) ''www.'' \<noteq> TrimPrefix (Host baseUrl) ''www.''
                    then Inl ErrExternal
                    else Inr (TrimSuffix (url_String L uri) ''/''))
                 else Inr (TrimSuffix (url_String L (url_ResolveReference L baseUrl uri)) ''/''))))"
  unfolding processLinkToken_def
  by (simp only: link_loop_first_href link_single)

lemma link_result_trimmed:
  assumes "processLinkToken L token base = Inr link"
  shows "\<exists>href uri baseUrl. first_href (Attr token) = Some href
      \<and> url_Parse L href = Some uri \<and> url_Parse L base = Some baseUrl
      \<and> (link = TrimSuffix (url_String L uri) ''/''
          \<or> link = TrimSuffix (url_String L (url_ResolveReference L baseUrl uri)) ''/'')"
proof (cases "first_href (Attr token)")
  case None
  with assms show ?thesis by (simp add: processLinkToken_def link_loop_no_href)
next
  case (Some href)
  from assms show ?thesis
    unfolding link_by_first_href[OF Some]
    using Some by (auto split: if_splits option.splits)
qed

lemma resource_loop_map_of:
  "map_of (processResourceToken_loop L token attrs result) k =
     (case reported_last L token k attrs of Some v \<Rightarrow> Some v | None \<Rightarrow> map_of result k)"
proof (induction attrs arbitrary: result)
  case Nil
  then show ?case by simp
next
  case (Cons attr rest)
  show ?case
  proof (cases "reported_candidate L token attr")
    case None
    then have "processResourceToken_loop L token (attr # rest) result
        = processResourceToken_loop L token rest result"
      by (auto simp: reported_candidate_def IsAbs_def split: if_splits option.splits)
    with None Cons.IH[of result] show ?thesis by (simp split: option.splits)
  next
    case (Some v)
    then have "processResourceToken_loop L token (attr # rest) result
        = processResourceToken_loop L token rest (AList.update (Key attr) v result)"
      by (auto simp: reported_candidate_def IsAbs_def split: if_splits option.splits)
    with Some Cons.IH[of "AList.update (Key attr) v result"] show ?thesis
      by (simp add: update_conv' split: option.splits)
  qed
qed

lemma resource_loop_distinct:
  "distinct (map fst result) \<Longrightarrow>
     distinct (map fst (processResourceToken_loop L token attrs result))"
proof (induction attrs arbitrary: result)
  case Nil
  then show ?case by simp
next
  case (Cons attr rest)
  then show ?case by (auto simp: distinct_update split: option.splits)
qed

lemma resource_values:
  "v \<in> set (map snd (processResourceToken_loop L token attrs [])) \<longleftrightarrow>
     (\<exists>k. reported_last L token k attrs = Some v)"
proof -
  let ?r = "processResourceToken_loop L token attrs []"
  have d: "distinct (map fst ?r)" by (rule resource_loop_distinct) simp
  have "v \<in> set (map snd ?r) \<longleftrightarrow> (\<exists>k. (k, v) \<in> set ?r)" by force
  also have "\<dots> \<longleftrightarrow> (\<exists>k. map_of ?r k = Some v)" using d by (auto simp: map_of_eq_Some_iff)
  also have "\<dots> \<longleftrightarrow> (\<exists>k. reported_last L token k attrs = Some v)"
    by (auto simp: resource_loop_map_of split: option.splits)
  finally show ?thesis .
qed

lemma reported_last_None_iff:
  "(\<forall>k. reported_last L token k attrs = None) \<longleftrightarrow>
     (\<forall>attr \<in> set attrs. reported_candidate L token attr = None)"
proof (induction attrs)
  case Nil
  then show ?case by simp
next
  case (Cons attr rest)
  show ?case
  proof
    assume a: "\<forall>k. reported_last L token k (attr # rest) = None"
    then have r: "\<forall>k. reported_last L token k rest = None" by (auto split: option.splits)
    from a have "reported_last L token (Key attr) (attr # rest) = None" by blast
    with r have "reported_candidate L token attr = None" by (simp split: option.splits)
    with r Cons.IH show "\<forall>a \<in> set (attr # rest). reported_candidate L token a = None" by simp
  next
    assume a: "\<forall>a \<in> set (attr # rest). reported_candidate L token a = None"
    with Cons.IH have "\<forall>k. reported_last L token k rest = None" by simp
    with a show "\<forall>k. reported_last L token k (attr # rest) = None" by simp
  qed
qed

lemma resource_empty_iff:
  "processResourceToken_loop L token attrs [] = [] \<longleftrightarrow>
     (\<forall>attr \<in> set attrs. reported_candidate L token attr = None)"
proof -
  let ?r = "processResourceToken_loop L token attrs []"
  have "?r = [] \<longleftrightarrow> (\<forall>v. v \<notin> set (map snd ?r))" by (cases ?r) auto
  also have "\<dots> \<longleftrightarrow> (\<forall>k. reported_last L token k attrs = None)"
    by (simp only: resource_values) (metis not_Some_eq)
  finally show ?thesis by (simp add: reported_last_None_iff)
qed

lemma reported_last_in:
  "reported_last L token k attrs = Some v \<Longrightarrow>
     \<exists>attr \<in> set attrs. reported_candidate L token attr = Some v"
proof (induction attrs)
  case Nil
  then show ?case by simp
next
  case (Cons attr rest)
  then show ?case by (auto split: option.splits if_splits)
qed

lemma reported_candidate_verbatim:
  "reported_candidate L token attr = Some v \<Longrightarrow>
     \<exists>uri. url_Parse L (Val attr) = Some uri \<and> v = url_String L uri"
  by (auto simp: reported_candidate_def split: if_splits option.splits)

text \<open>
  Claim C3, as stated, fails for resources: the insecure resource found for
  \<^verbatim>\<open><img src="http://cdn.example.com/"/>\<close> is returned with its trailing slash.
\<close>

theorem resource_url_keeps_trailing_slash:
  "processResourceToken go_url
     \<lparr>Type = SelfClosingTagToken, Data = ''img'',
      Attr = [\<lparr>Key = ''src'', Val = ''http://cdn.example.com/''\<rparr>]\<rparr>
     = Inr [(''src'', ''http://cdn.example.com/'')]
   \<and> TrimSuffix ''http://cdn.example.com/'' ''/'' = ''http://cdn.example.com''"
  by (simp add: scanner_defs go_defs)

text \<open>
  Claim C3, amended. A link URL the classifier returns is the serialisation of a URL
  with exactly one trailing \<open>/\<close> stripped when there is one (\<^verbatim>\<open>TrimSuffix\<close> removes one
  and leaves a string without it unchanged). An insecure resource URL is the
  serialisation of the parsed attribute value, unchanged: nothing is stripped.
\<close>

theorem link_trimmed_resource_verbatim:
  "(processLinkToken L token base = Inr link \<longrightarrow>
      (\<exists>href uri baseUrl. first_href (Attr token) = Some href
         \<and> url_Parse L href = Some uri \<and> url_Parse L base = Some baseUrl
         \<and> (link = TrimSuffix (url_String L uri) ''/''
             \<or> link = TrimSuffix (url_String L (url_ResolveReference L baseUrl uri)) ''/'')))
   \<and> TrimSuffix (s @ ''/'') ''/'' = s
   \<and> (\<not> HasSuffix s ''/'' \<longrightarrow> TrimSuffix s ''/'' = s)
   \<and> (processResourceToken L token = Inr uris \<longrightarrow>
        (\<forall>v \<in> set (map snd uris). \<exists>attr \<in> set (Attr token). \<exists>uri.
            url_Parse L (Val attr) = Some uri \<and> v = url_String L uri))"
proof -
  have a: "processLinkToken L token base = Inr link \<longrightarrow>
      (\<exists>href uri baseUrl. first_href (Attr token) = Some href
         \<and> url_Parse L href = Some uri \<and> url_Parse L base = Some baseUrl
         \<and> (link = TrimSuffix (url_String L uri) ''/''
             \<or> link = TrimSuffix (url_String L (url_ResolveReference L baseUrl uri)) ''/''))"
    by (rule impI) (rule link_result_trimmed)
  have b: "TrimSuffix (s @ ''/'') ''/'' = s" by (rule TrimSuffix_one_slash)
  have c: "\<not> HasSuffix s ''/'' \<longrightarrow> TrimSuffix s ''/'' = s" by (simp add: TrimSuffix_no_slash)
  have d: "processResourceToken L token = Inr uris \<longrightarrow>
        (\<forall>v \<in> set (map snd uris). \<exists>attr \<in> set (Attr token). \<exists>uri.
            url_Parse L (Val attr) = Some uri \<and> v = url_String L uri)"
  proof (intro impI ballI)
    fix v
    assume p: "processResourceToken L token = Inr uris" and v: "v \<in> set (map snd uris)"
    from p have "uris = processResourceToken_loop L token (Attr token) []"
      by (auto simp: processResourceToken_def Let_def split: if_splits)
    with v obtain k where "reported_last L token k (Attr token) = Some v"
      using resource_values by blast
    from reported_last_in[OF this] obtain attr where
      "attr \<in> set (Attr token)" "reported_candidate L token attr = Some v" by blast
    with reported_candidate_verbatim show "\<exists>attr \<in> set (Attr token). \<exists>uri.
            url_Parse L (Val attr) = Some uri \<and> v = url_String L uri" by blast
  qed
  show ?thesis by (intro conjI) (rule a, rule b, rule c, rule d)
qed

theorem link_trimmed_resource_verbatim_witness:
  "processLinkToken go_url
      \<lparr>Type = StartTagToken, Data = ''a'',
       Attr = [\<lparr>Key = ''href'', Val = ''https://example.com/page/''\<rparr>]\<rparr> ''https://www.example.com''
     = Inr ''https://example.com/page''
   \<and> (\<exists>uri. url_Parse go_url ''https://example.com/page/'' = Some uri
          \<and> ''https://example.com/page'' = TrimSuffix (url_String go_url uri) ''/'')"
proof -
  let ?t = "\<lparr>Type = StartTagToken, Data = ''a'',
       Attr = [\<lparr>Key = ''href'', Val = ''https://example.com/page/''\<rparr>]\<rparr>"
  have h: "processLinkToken go_url ?t ''https://www.example.com'' = Inr ''https://example.com/page''"
    by (simp add: scanner_defs go_defs)
  have f: "first_href (Attr ?t) = Some ''https://example.com/page/''" by (simp add: first_href_def)
  have p: "url_Parse go_url ''https://example.com/page/''
      = Some (empty_URL\<lparr>Scheme := ''https'', Host := ''example.com'', Path := ''/page/''\<rparr>)"
    by (simp add: scanner_defs go_defs)
  have t: "''https://example.com/page'' = TrimSuffix (url_String go_url
      (empty_URL\<lparr>Scheme := ''https'', Host := ''example.com'', Path := ''/page/''\<rparr>)) ''/''"
    by (simp add: scanner_defs go_defs)
  from link_trimmed_resource_verbatim[of go_url ?t "''https://www.example.com''" "''https://example.com/page''"] h
  have "\<exists>href uri baseUrl. first_href (Attr ?t) = Some href
         \<and> url_Parse go_url href = Some uri" by blast
  with f p t h show ?thesis by simp
qed

lemma slash_not_letter: "CHR ''/'' \<notin> set letters"
  by (simp add: letters_def)

lemma slash_not_digit: "CHR ''/'' \<notin> set digits"
  by (simp add: digits_def)

lemma getScheme_loop_no_slash:
  "getScheme_loop rawURL pre cs = Some (scheme, rest) \<Longrightarrow> CHR ''/'' \<notin> set pre \<Longrightarrow>
     CHR ''/'' \<notin> set scheme"
proof (induction cs arbitrary: pre)
  case Nil
  then show ?case by simp
next
  case (Cons c cs)
  show ?case
  proof (cases "c \<in> set letters")
    case True
    then have "c \<noteq> CHR ''/''" using slash_not_letter by blast
    with Cons.prems(2) have "CHR ''/'' \<notin> set (pre @ [c])" by simp
    moreover from Cons.prems(1) True have "getScheme_loop rawURL (pre @ [c]) cs = Some (scheme, rest)"
      by simp
    ultimately show ?thesis by (rule Cons.IH[rotated])
  next
    case False
    note nl = False
    show ?thesis
    proof (cases "c \<in> set digits \<or> c = CHR ''+'' \<or> c = CHR ''-'' \<or> c = CHR ''.''")
      case True
      then have cn: "c \<noteq> CHR ''/''" using slash_not_digit by auto
      show ?thesis
      proof (cases "pre = []")
        case True
        with Cons.prems(1) nl \<open>c \<in> set digits \<or> c = CHR ''+'' \<or> c = CHR ''-'' \<or> c = CHR ''.''\<close>
        have "scheme = []" by simp
        then show ?thesis by simp
      next
        case False
        with Cons.prems(1) nl \<open>c \<in> set digits \<or> c = CHR ''+'' \<or> c = CHR ''-'' \<or> c = CHR ''.''\<close>
        have "getScheme_loop rawURL (pre @ [c]) cs = Some (scheme, rest)" by simp
        moreover from cn Cons.prems(2) have "CHR ''/'' \<notin> set (pre @ [c])" by simp
        ultimately show ?thesis by (rule Cons.IH)
      qed
    next
      case False
      with Cons.prems nl show ?thesis by (simp split: if_splits)
    qed
  qed
qed


lemma ToLower_no_slash:
  assumes "CHR ''/'' \<notin> set s"
  shows "CHR ''/'' \<notin> set (ToLower s)"
proof -
  let ?m = "map_of (zip ''ABCDEFGHIJKLMNOPQRSTUVWXYZ'' ''abcdefghijklmnopqrstuvwxyz'')"
  have low: "\<And>c l. ?m c = Some l \<Longrightarrow> l \<noteq> CHR ''/''"
  proof -
    fix c l assume "?m c = Some l"
    then have "(c, l) \<in> set (zip ''ABCDEFGHIJKLMNOPQRSTUVWXYZ'' ''abcdefghijklmnopqrstuvwxyz'')"
      by (rule map_of_SomeD)
    then have "l \<in> set ''abcdefghijklmnopqrstuvwxyz''" by (rule set_zip_rightD)
    moreover have "CHR ''/'' \<notin> set ''abcdefghijklmnopqrstuvwxyz''" by simp
    ultimately show "l \<noteq> CHR ''/''" by blast
  qed
  have "\<And>c. c \<in> set s \<Longrightarrow> (case ?m c of None \<Rightarrow> c | Some l \<Rightarrow> l) \<noteq> CHR ''/''"
  proof -
    fix c assume "c \<in> set s"
    with assms have "c \<noteq> CHR ''/''" by blast
    then show "(case ?m c of None \<Rightarrow> c | Some l \<Rightarrow> l) \<noteq> CHR ''/''"
      using low[of c] by (cases "?m c") simp_all
  qed
  note ne = this
  show ?thesis
  proof
    assume "CHR ''/'' \<in> set (ToLower s)"
    then have "CHR ''/'' \<in> (\<lambda>c. case ?m c of None \<Rightarrow> c | Some l \<Rightarrow> l) ` set s"
      unfolding ToLower_def by (simp only: set_map)
    then obtain c where "c \<in> set s" and "CHR ''/'' = (case ?m c of None \<Rightarrow> c | Some l \<Rightarrow> l)"
      by (rule imageE)
    with ne[of c] show False by simp
  qed
qed

lemma go_String_absolute_no_slashes:
  assumes "Scheme u \<noteq> []" and "CHR ''/'' \<notin> set (Scheme u)"
  shows "\<not> HasPrefix (go_String u) ''//''"
proof -
  from assms obtain c cs where sc: "Scheme u = c # cs" and c: "c \<noteq> CHR ''/''"
    by (cases "Scheme u") auto
  have "\<exists>tl. go_String u = c # tl"
    using sc by (simp add: go_String_def Let_def)
  then obtain tl where "go_String u = c # tl" by blast
  with c show ?thesis by (simp add: HasPrefix_def)
qed

lemma go_parse_scheme_no_slash:
  "go_parse s = Some u \<Longrightarrow> CHR ''/'' \<notin> set (Scheme u)"
  unfolding go_parse_def getScheme_def
  by (auto simp: empty_URL_def Let_def ToLower_no_slash
      split: if_splits option.splits prod.splits dest: getScheme_loop_no_slash)

lemma go_Parse_scheme_no_slash:
  "go_Parse s = Some u \<Longrightarrow> CHR ''/'' \<notin> set (Scheme u)"
  unfolding go_Parse_def
  by (auto split: if_splits option.splits dest: go_parse_scheme_no_slash)

lemma go_reported_candidate:
  "reported_candidate go_url token attr =
     (if isTargetedResourceTokenAttribute token attr then
        (case url_Parse go_url (Val attr) of
           None \<Rightarrow> None
         | Some uri \<Rightarrow>
             if Scheme uri \<noteq> [] \<and> Scheme uri \<noteq> ''https''
             then Some (url_String go_url uri) else None)
      else None)"
proof (cases "url_Parse go_url (Val attr)")
  case None
  then show ?thesis by (simp add: reported_candidate_def)
next
  case (Some uri)
  then have "go_Parse (Val attr) = Some uri" by (simp add: go_url_def)
  then have "CHR ''/'' \<notin> set (Scheme uri)" by (rule go_Parse_scheme_no_slash)
  then have "Scheme uri \<noteq> [] \<longrightarrow> \<not> HasPrefix (url_String go_url uri) ''//''"
    using go_String_absolute_no_slashes[of uri] by (simp add: go_url_def)
  with Some show ?thesis by (auto simp: reported_candidate_def)
qed

text \<open>
  Claim C4, as stated, fails: a candidate whose scheme is not \<open>http\<close> is reported. The
  resource \<^verbatim>\<open><img src="ftp://files.example.com/a.png"/>\<close> has the scheme \<open>ftp\<close> and is
  returned as an insecure resource.
\<close>

theorem ftp_resource_reported:
  "processResourceToken go_url
     \<lparr>Type = SelfClosingTagToken, Data = ''img'',
      Attr = [\<lparr>Key = ''src'', Val = ''ftp://files.example.com/a.png''\<rparr>]\<rparr>
     = Inr [(''src'', ''ftp://files.example.com/a.png'')]
   \<and> map_option Scheme (url_Parse go_url ''ftp://files.example.com/a.png'') = Some ''ftp''"
  by (simp add: scanner_defs go_defs)

text \<open>
  Claim C4, amended. A candidate is reported (\<open>reported_candidate\<close>) exactly when its
  attribute is targeted, its value parses, and the parsed URL has a scheme, other than
  \<open>https\<close>, and is not written with a leading \<open>//\<close> while having a host: any scheme but
  \<open>https\<close> counts, not \<open>http\<close> alone. (In the model \<open>go_url\<close> of the library a URL
  with a scheme is never written with a leading \<open>//\<close>, and the candidate is reported
  exactly when it parses with a scheme other than \<open>https\<close>.) The URLs \<^verbatim>\<open>processResourceToken\<close> returns are,
  for each attribute key, the one reported for the last attribute of that key that has
  one; it returns an error exactly when no attribute has one; and for a token with a
  single attribute its result is that attribute's classification.
\<close>

theorem resource_reported_iff_not_https:
  "(processResourceToken L token = Inr uris \<longrightarrow>
      (\<forall>v. v \<in> set (map snd uris) \<longleftrightarrow> (\<exists>k. reported_last L token k (Attr token) = Some v)))
   \<and> ((\<exists>e. processResourceToken L token = Inl e) \<longleftrightarrow>
        (\<forall>attr \<in> set (Attr token). reported_candidate L token attr = None))
   \<and> (Attr token = [attr] \<longrightarrow>
        processResourceToken L token =
          (case reported_candidate L token attr of
             None \<Rightarrow> Inl ErrTargetedNotFound
           | Some v \<Rightarrow> Inr [(Key attr, v)]))
   \<and> reported_candidate go_url token attr =
        (if isTargetedResourceTokenAttribute token attr then
           (case url_Parse go_url (Val attr) of
              None \<Rightarrow> None
            | Some uri \<Rightarrow>
                if Scheme uri \<noteq> [] \<and> Scheme uri \<noteq> ''https''
                then Some (url_String go_url uri) else None)
         else None)"
proof -
  have a: "processResourceToken L token = Inr uris \<longrightarrow>
      (\<forall>v. v \<in> set (map snd uris) \<longleftrightarrow> (\<exists>k. reported_last L token k (Attr token) = Some v))"
  proof (intro impI allI)
    fix v
    assume p: "processResourceToken L token = Inr uris"
    then have "uris = processResourceToken_loop L token (Attr token) []"
      by (auto simp: processResourceToken_def Let_def split: if_splits)
    then show "v \<in> set (map snd uris) \<longleftrightarrow> (\<exists>k. reported_last L token k (Attr token) = Some v)"
      by (simp only: resource_values)
  qed
  have "(\<exists>e. processResourceToken L token = Inl e) \<longleftrightarrow>
        processResourceToken_loop L token (Attr token) [] = []"
    by (simp add: processResourceToken_def Let_def)
  then have b: "(\<exists>e. processResourceToken L token = Inl e) \<longleftrightarrow>
        (\<forall>attr \<in> set (Attr token). reported_candidate L token attr = None)"
    by (simp only: resource_empty_iff)
  have c: "Attr token = [attr] \<longrightarrow>
        processResourceToken L token =
          (case reported_candidate L token attr of
             None \<Rightarrow> Inl ErrTargetedNotFound
           | Some v \<Rightarrow> Inr [(Key attr, v)])"
    by (auto simp: processResourceToken_def reported_candidate_def IsAbs_def Let_def
        split: option.splits)
  show ?thesis by (intro conjI) (rule a, rule b, rule c, rule go_reported_candidate)
qed

theorem resource_reported_iff_not_https_witness:
  "processResourceToken go_url
     \<lparr>Type = StartTagToken, Data = ''video'',
      Attr = [\<lparr>Key = ''src'', Val = ''http://cdn.example.com/v.mp4''\<rparr>]\<rparr>
     = Inr [(''src'', ''http://cdn.example.com/v.mp4'')]
   \<and> reported_candidate go_url
     \<lparr>Type = StartTagToken, Data = ''video'',
      Attr = [\<lparr>Key = ''src'', Val = ''http://cdn.example.com/v.mp4''\<rparr>]\<rparr>
     \<lparr>Key = ''src'', Val = ''http://cdn.example.com/v.mp4''\<rparr> = Some ''http://cdn.example.com/v.mp4''
   \<and> processResourceToken go_url
     \<lparr>Type = StartTagToken, Data = ''video'',
      Attr = [\<lparr>Key = ''src'', Val = ''https://cdn.example.com/v.mp4''\<rparr>]\<rparr>
     = Inl ErrTargetedNotFound"
proof -
  let ?a = "\<lparr>Key = ''src'', Val = ''http://cdn.example.com/v.mp4''\<rparr>"
  let ?t = "\<lparr>Type = StartTagToken, Data = ''video'', Attr = [?a]\<rparr>"
  let ?b = "\<lparr>Key = ''src'', Val = ''https://cdn.example.com/v.mp4''\<rparr>"
  let ?u = "\<lparr>Type = StartTagToken, Data = ''video'', Attr = [?b]\<rparr>"
  have r: "reported_candidate go_url ?t ?a = Some ''http://cdn.example.com/v.mp4''"
    by (simp add: reported_candidate_def scanner_defs go_defs)
  have n: "reported_candidate go_url ?u ?b = None"
    by (simp add: reported_candidate_def scanner_defs go_defs)
  have at: "Attr ?t = [?a]" by simp
  have au: "Attr ?u = [?b]" by simp
  from resource_reported_iff_not_https[of go_url ?t "[]" ?a] at r
  have 1: "processResourceToken go_url ?t = Inr [(''src'', ''http://cdn.example.com/v.mp4'')]"
    by simp
  from resource_reported_iff_not_https[of go_url ?u "[]" ?b] au n
  have 2: "processResourceToken go_url ?u = Inl ErrTargetedNotFound"
    by simp
  from 1 r 2 show ?thesis by blast
qed

lemma go_parse_shape:
  "go_parse s = Some u \<Longrightarrow>
     (Opaque u \<noteq> [] \<longrightarrow> Scheme u \<noteq> [] \<and> Host u = [])"
  unfolding go_parse_def
  by (auto simp: empty_URL_def Let_def split: if_splits option.splits prod.splits)

lemma go_Parse_shape:
  "go_Parse s = Some u \<Longrightarrow>
     (Opaque u \<noteq> [] \<longrightarrow> Scheme u \<noteq> [] \<and> Host u = [])"
  unfolding go_Parse_def
  by (auto split: if_splits option.splits dest: go_parse_shape)

lemma go_String_scheme_relative:
  "Scheme u = [] \<Longrightarrow> Opaque u = [] \<Longrightarrow> Host u \<noteq> [] \<Longrightarrow> HasPrefix (go_String u) ''//''"
  by (simp add: go_String_def HasPrefix_def Let_def)

lemma go_Resolve_host:
  assumes "Opaque ref \<noteq> [] \<longrightarrow> Scheme ref \<noteq> [] \<and> Host ref = []"
    and "Opaque b \<noteq> [] \<longrightarrow> Scheme b \<noteq> [] \<and> Host b = []"
  shows "Host (go_ResolveReference b ref)
     = (if Scheme ref \<noteq> [] \<or> Host ref \<noteq> [] then Host ref else Host b)"
  using assms by (auto simp: go_ResolveReference_def Let_def)

lemma go_Resolve_abs:
  "IsAbs b \<Longrightarrow> IsAbs (go_ResolveReference b ref)"
  by (auto simp: go_ResolveReference_def Let_def IsAbs_def)

lemma go_url_rfc3986:
  assumes "\<And>b. url_Parse go_url base = Some b \<Longrightarrow> IsAbs b"
  shows "rfc3986_resolution go_url base href"
  unfolding rfc3986_resolution_def
proof (intro allI impI)
  fix uri baseUrl
  assume u: "url_Parse go_url href = Some uri" and b: "url_Parse go_url base = Some baseUrl"
  from u have su: "Opaque uri \<noteq> [] \<longrightarrow> Scheme uri \<noteq> [] \<and> Host uri = []"
    by (simp add: go_url_def go_Parse_shape)
  from b have sb: "Opaque baseUrl \<noteq> [] \<longrightarrow> Scheme baseUrl \<noteq> [] \<and> Host baseUrl = []"
    by (simp add: go_url_def go_Parse_shape)
  have 1: "IsAbs baseUrl" using assms b by blast
  have 2: "IsAbs (url_ResolveReference go_url baseUrl uri)"
    using go_Resolve_abs[OF 1] by (simp add: go_url_def)
  have 3: "Host (url_ResolveReference go_url baseUrl uri)
            = (if Scheme uri \<noteq> [] \<or> Host uri \<noteq> [] then Host uri else Host baseUrl)"
    using go_Resolve_host[OF su sb] by (simp add: go_url_def)
  have 4: "Scheme uri = [] \<longrightarrow> Host uri \<noteq> [] \<longrightarrow> HasPrefix (url_String go_url uri) ''//''"
    using su go_String_scheme_relative[of uri] by (auto simp: go_url_def)
  from 1 2 3 4 show "IsAbs baseUrl
        \<and> IsAbs (url_ResolveReference go_url baseUrl uri)
        \<and> Host (url_ResolveReference go_url baseUrl uri)
            = (if Scheme uri \<noteq> [] \<or> Host uri \<noteq> [] then Host uri else Host baseUrl)
        \<and> (Scheme uri = [] \<longrightarrow> Host uri \<noteq> [] \<longrightarrow> HasPrefix (url_String go_url uri) ''//'')"
    by blast
qed

lemma link_in_scope_generic:
  assumes "first_href (Attr token) = Some href" and "rfc3986_resolution L base href"
  shows "(\<exists>u. processLinkToken L token base = Inr u) \<longleftrightarrow> in_scope_link L base href"
proof (cases "HasPrefix href ''#''")
    case True
    then show ?thesis by (simp add: link_by_first_href[OF assms(1)] in_scope_link_def)
  next
    case False
    note na = False
    show ?thesis
    proof (cases "url_Parse L href")
      case None
      with na show ?thesis by (simp add: link_by_first_href[OF assms(1)] in_scope_link_def)
    next
      case (Some uri)
      note pu = Some
      show ?thesis
      proof (cases "url_Parse L base")
        case None
        with na pu show ?thesis by (simp add: link_by_first_href[OF assms(1)] in_scope_link_def)
      next
        case (Some baseUrl)
        from assms(2) pu Some have
          abs: "IsAbs (url_ResolveReference L baseUrl uri)" and
          host: "Host (url_ResolveReference L baseUrl uri)
            = (if Scheme uri \<noteq> [] \<or> Host uri \<noteq> [] then Host uri else Host baseUrl)" and
          str: "Scheme uri = [] \<longrightarrow> Host uri \<noteq> [] \<longrightarrow> HasPrefix (url_String L uri) ''//''"
          by (simp_all add: rfc3986_resolution_def)
        have br: "IsAbs uri \<or> (Host uri \<noteq> [] \<and> HasPrefix (url_String L uri) ''//'')
            \<longleftrightarrow> Scheme uri \<noteq> [] \<or> Host uri \<noteq> []"
          using str by (auto simp: IsAbs_def)
        show ?thesis
          using na pu Some abs host br
          by (simp add: link_by_first_href[OF assms(1)] in_scope_link_def)
      qed
    qed
qed

lemma link_in_scope_value:
  assumes "first_href (Attr token) = Some href" and "rfc3986_resolution L base href"
    and "processLinkToken L token base = Inr u"
  shows "\<exists>uri baseUrl. url_Parse L href = Some uri \<and> url_Parse L base = Some baseUrl
     \<and> u = TrimSuffix (url_String L
           (if Scheme uri \<noteq> [] \<or> Host uri \<noteq> [] then uri
            else url_ResolveReference L baseUrl uri)) ''/''"
proof -
  from assms(3) obtain uri baseUrl where pu: "url_Parse L href = Some uri"
    and pb: "url_Parse L base = Some baseUrl"
    unfolding link_by_first_href[OF assms(1)]
    by (auto split: if_splits option.splits)
  from assms(2) pu pb have
    str: "Scheme uri = [] \<longrightarrow> Host uri \<noteq> [] \<longrightarrow> HasPrefix (url_String L uri) ''//''"
    by (simp add: rfc3986_resolution_def)
  have br: "IsAbs uri \<or> (Host uri \<noteq> [] \<and> HasPrefix (url_String L uri) ''//'')
      \<longleftrightarrow> Scheme uri \<noteq> [] \<or> Host uri \<noteq> []"
    using str by (auto simp: IsAbs_def)
  from assms(3) pu pb br have "u = TrimSuffix (url_String L
           (if Scheme uri \<noteq> [] \<or> Host uri \<noteq> [] then uri
            else url_ResolveReference L baseUrl uri)) ''/''"
    unfolding link_by_first_href[OF assms(1)]
    by (auto split: if_splits)
  with pu pb show ?thesis by blast
qed

text \<open>
  Claim C5. For an anchor token with the candidate \<open>href\<close>, and a library that
  resolves references as RFC 3986 says, \<^verbatim>\<open>processLinkToken\<close> returns a link
  exactly when the candidate is an in-scope link in the spec's words: it is not an
  in-page anchor, it parses, and resolved against the base it is an absolute URL with
  the base's host, a leading \<open>www.\<close> ignored. The link returned is the serialisation,
  one trailing \<open>/\<close> stripped, of the candidate itself when it has a scheme or a host and
  of its resolution against the base otherwise. The model \<open>go_url\<close> of the library
  resolves references so for every base that is absolute. For the base \<^verbatim>\<open>https://www.example.com\<close>
  and \<^verbatim>\<open>href="https://example.com/page/"\<close> the link returned is
  \<^verbatim>\<open>https://example.com/page\<close>.
\<close>

theorem link_in_scope_iff:
  assumes "first_href (Attr token) = Some href" and "rfc3986_resolution L base href"
  shows "((\<exists>u. processLinkToken L token base = Inr u) \<longleftrightarrow> in_scope_link L base href)
    \<and> (\<forall>u. processLinkToken L token base = Inr u \<longrightarrow>
         (\<exists>uri baseUrl. url_Parse L href = Some uri \<and> url_Parse L base = Some baseUrl
            \<and> u = TrimSuffix (url_String L
                  (if Scheme uri \<noteq> [] \<or> Host uri \<noteq> [] then uri
                   else url_ResolveReference L baseUrl uri)) ''/''))
    \<and> ((\<forall>baseUrl. url_Parse go_url base = Some baseUrl \<longrightarrow> IsAbs baseUrl) \<longrightarrow>
         ((\<exists>u. processLinkToken go_url token base = Inr u) \<longleftrightarrow> in_scope_link go_url base href))
    \<and> processLinkToken go_url
        \<lparr>Type = StartTagToken, Data = ''a'',
         Attr = [\<lparr>Key = ''href'', Val = ''https://example.com/page/''\<rparr>]\<rparr> ''https://www.example.com''
       = Inr ''https://example.com/page''"
proof -
  have g: "(\<exists>u. processLinkToken L token base = Inr u) \<longleftrightarrow> in_scope_link L base href"
    using assms by (rule link_in_scope_generic)
  have m: "(\<forall>baseUrl. url_Parse go_url base = Some baseUrl \<longrightarrow> IsAbs baseUrl) \<longrightarrow>
         ((\<exists>u. processLinkToken go_url token base = Inr u) \<longleftrightarrow> in_scope_link go_url base href)"
  proof
    assume "\<forall>baseUrl. url_Parse go_url base = Some baseUrl \<longrightarrow> IsAbs baseUrl"
    then have "rfc3986_resolution go_url base href" by (intro go_url_rfc3986) blast
    with assms(1) show "(\<exists>u. processLinkToken go_url token base = Inr u)
        \<longleftrightarrow> in_scope_link go_url base href"
      by (rule link_in_scope_generic)
  qed
  have ex: "processLinkToken go_url
        \<lparr>Type = StartTagToken, Data = ''a'',
         Attr = [\<lparr>Key = ''href'', Val = ''https://example.com/page/''\<rparr>]\<rparr> ''https://www.example.com''
       = Inr ''https://example.com/page''"
    by (simp add: scanner_defs go_defs)
  have v: "\<forall>u. processLinkToken L token base = Inr u \<longrightarrow>
         (\<exists>uri baseUrl. url_Parse L href = Some uri \<and> url_Parse L base = Some baseUrl
            \<and> u = TrimSuffix (url_String L
                  (if Scheme uri \<noteq> [] \<or> Host uri \<noteq> [] then uri
                   else url_ResolveReference L baseUrl uri)) ''/'')"
    using link_in_scope_value[OF assms] by blast
  show ?thesis by (intro conjI) (rule g, rule v, rule m, rule ex)
qed

theorem link_in_scope_iff_witness:
  "first_href (Attr \<lparr>Type = StartTagToken, Data = ''a'',
       Attr = [\<lparr>Key = ''class'', Val = ''nav''\<rparr>, \<lparr>Key = ''href'', Val = ''/next''\<rparr>]\<rparr>) = Some ''/next''
   \<and> rfc3986_resolution go_url ''https://example.com/a/'' ''/next''
   \<and> rfc3986_resolution go_url ''https://www.example.com'' ''https://example.com/page/''
   \<and> in_scope_link go_url ''https://example.com/a/'' ''/next''
   \<and> (\<exists>u. processLinkToken go_url \<lparr>Type = StartTagToken, Data = ''a'',
       Attr = [\<lparr>Key = ''class'', Val = ''nav''\<rparr>, \<lparr>Key = ''href'', Val = ''/next''\<rparr>]\<rparr>
         ''https://example.com/a/'' = Inr u)"
proof -
  let ?t = "\<lparr>Type = StartTagToken, Data = ''a'',
       Attr = [\<lparr>Key = ''class'', Val = ''nav''\<rparr>, \<lparr>Key = ''href'', Val = ''/next''\<rparr>]\<rparr>"
  have f: "first_href (Attr ?t) = Some ''/next''" by (simp add: first_href_def)
  have r: "rfc3986_resolution go_url ''https://example.com/a/'' ''/next''"
    by (simp add: rfc3986_resolution_def scanner_defs go_defs)
  have i: "in_scope_link go_url ''https://example.com/a/'' ''/next''"
    by (simp add: in_scope_link_def scanner_defs go_defs)
  have r': "rfc3986_resolution go_url ''https://www.example.com'' ''https://example.com/page/''"
    by (simp add: rfc3986_resolution_def scanner_defs go_defs)
  from link_in_scope_iff[OF f r] f r r' i show ?thesis by blast
qed

text \<open>
  Claim C10, as stated, fails: \<^verbatim>\<open>href="#top"\<close> parses, has neither a scheme nor a
  host, and is rejected (as an anchor), not accepted.
\<close>

theorem anchor_is_relative_but_rejected:
  "map_option (\<lambda>uri. (Scheme uri, Host uri)) (url_Parse go_url ''#top'') = Some ([], [])
   \<and> processLinkToken go_url
       \<lparr>Type = StartTagToken, Data = ''a'', Attr = [\<lparr>Key = ''href'', Val = ''#top''\<rparr>]\<rparr>
       ''https://example.com/docs'' = Inl ErrAnchor"
  by (simp add: scanner_defs go_defs)

text \<open>
  Claim C10, amended. For an anchor token whose candidate parses and has neither a
  scheme nor a host, the classifier never answers that the link is external. It rejects
  the candidate when it starts with \<open>#\<close> (an anchor) and when the base does not parse;
  otherwise it accepts it, as the resolution of the candidate against the base with one
  trailing \<open>/\<close> stripped. For \<^verbatim>\<open>href=""\<close> on the page \<^verbatim>\<open>https://example.com/docs\<close> the
  link returned is the page's own URL.
\<close>

theorem relative_link_resolved_never_external:
  assumes "first_href (Attr token) = Some href" and "url_Parse L href = Some uri"
    and "Scheme uri = []" and "Host uri = []"
  shows "processLinkToken L token base \<noteq> Inl ErrExternal
    \<and> processLinkToken L token base =
        (if HasPrefix href ''#'' then Inl ErrAnchor
         else (case url_Parse L base of
             None \<Rightarrow> Inl (ErrUrlParse base)
           | Some baseUrl \<Rightarrow>
               Inr (TrimSuffix (url_String L (url_ResolveReference L baseUrl uri)) ''/'')))
    \<and> processLinkToken go_url
        \<lparr>Type = StartTagToken, Data = ''a'', Attr = [\<lparr>Key = ''href'', Val = ''''\<rparr>]\<rparr>
        ''https://example.com/docs'' = Inr ''https://example.com/docs''"
proof -
  have eq: "processLinkToken L token base =
        (if HasPrefix href ''#'' then Inl ErrAnchor
         else (case url_Parse L base of
             None \<Rightarrow> Inl (ErrUrlParse base)
           | Some baseUrl \<Rightarrow>
               Inr (TrimSuffix (url_String L (url_ResolveReference L baseUrl uri)) ''/'')))"
    using assms(2-4) by (auto simp: link_by_first_href[OF assms(1)] IsAbs_def split: option.splits)
  then have ne: "processLinkToken L token base \<noteq> Inl ErrExternal"
    by (simp split: option.splits)
  have ex: "processLinkToken go_url
        \<lparr>Type = StartTagToken, Data = ''a'', Attr = [\<lparr>Key = ''href'', Val = ''''\<rparr>]\<rparr>
        ''https://example.com/docs'' = Inr ''https://example.com/docs''"
    by (simp add: scanner_defs go_defs)
  from ne eq ex show ?thesis by blast
qed

theorem relative_link_resolved_never_external_witness:
  "first_href (Attr \<lparr>Type = StartTagToken, Data = ''a'',
       Attr = [\<lparr>Key = ''href'', Val = ''next''\<rparr>]\<rparr>) = Some ''next''
   \<and> map_option (\<lambda>uri. (Scheme uri, Host uri)) (url_Parse go_url ''next'') = Some ([], [])
   \<and> processLinkToken go_url \<lparr>Type = StartTagToken, Data = ''a'',
       Attr = [\<lparr>Key = ''href'', Val = ''next''\<rparr>]\<rparr> ''https://example.com/a/b/''
       = Inr ''https://example.com/a/b/next''"
proof -
  let ?t = "\<lparr>Type = StartTagToken, Data = ''a'', Attr = [\<lparr>Key = ''href'', Val = ''next''\<rparr>]\<rparr>"
  let ?u = "empty_URL\<lparr>Path := ''next''\<rparr>"
  have f: "first_href (Attr ?t) = Some ''next''" by (simp add: first_href_def)
  have p: "url_Parse go_url ''next'' = Some ?u" by (simp add: scanner_defs go_defs)
  have s: "Scheme ?u = []" and h: "Host ?u = []" by (simp_all add: empty_URL_def)
  have b: "url_Parse go_url ''https://example.com/a/b/'' =
      Some (empty_URL\<lparr>Scheme := ''https'', Host := ''example.com'', Path := ''/a/b/''\<rparr>)"
    by (simp add: scanner_defs go_defs)
  have r: "TrimSuffix (url_String go_url (url_ResolveReference go_url
      (empty_URL\<lparr>Scheme := ''https'', Host := ''example.com'', Path := ''/a/b/''\<rparr>) ?u)) ''/''
      = ''https://example.com/a/b/next''"
    by (simp add: scanner_defs go_defs)
  have na: "\<not> HasPrefix ''next'' ''#''" by (simp add: HasPrefix_def)
  from relative_link_resolved_never_external[OF f p s h, of "''https://example.com/a/b/''"] na b r
  have "processLinkToken go_url ?t ''https://example.com/a/b/'' = Inr ''https://example.com/a/b/next''"
    by simp
  moreover have "map_option (\<lambda>uri. (Scheme uri, Host uri)) (url_Parse go_url ''next'') = Some ([], [])"
    using p s h by simp
  ultimately show ?thesis using f by blast
qed

section \<open>The scheduler\<close>

lemma run_append:
  "run fetch (xs @ ys) s = (case run fetch xs s of None \<Rightarrow> None | Some s' \<Rightarrow> run fetch ys s')"
  by (induction xs arbitrary: s) (auto split: option.splits)

lemma step_Some_running: "step fetch ev s = Some s' \<Longrightarrow> \<not> returned s"
  by (auto simp: step_def split: if_splits)

lemma step_Run_flag:
  "step fetch (Run n) s = Some s' \<Longrightarrow> flag s' = flag s \<and> \<not> returned s'"
  by (auto simp: step_def split: if_splits prod.splits)

lemma step_Recv_flag:
  "step fetch (Recv n) s = Some s' \<Longrightarrow> \<not> flag s' \<and> \<not> returned s'"
  by (auto simp: step_def Let_def split: if_splits list.splits)

lemma step_Tick_eq:
  "step fetch Tick s =
     (if returned s then None
      else if flag s then
        Some (s\<lparr>returned := True,
                stdout := stdout s @ [Separator, LogHeader, RegistryDump (registry s)]\<rparr>)
      else Some (s\<lparr>flag := True\<rparr>))"
  by (simp add: step_def)

lemma run_silence:
  "run fetch evs (crawl_init url) = Some s \<Longrightarrow>
     (returned s \<longleftrightarrow> consecutive_silence (rev evs) = 2)
   \<and> (\<not> returned s \<longrightarrow> (flag s \<longleftrightarrow> consecutive_silence (rev evs) = 1))
   \<and> consecutive_silence (rev evs) \<le> 2"
proof (induction evs arbitrary: s rule: rev_induct)
  case Nil
  then show ?case by (auto simp: crawl_init_def)
next
  case (snoc ev evs)
  from snoc.prems obtain s0 where r: "run fetch evs (crawl_init url) = Some s0"
    and st: "step fetch ev s0 = Some s"
    by (auto simp: run_append split: option.splits)
  note ih = snoc.IH[OF r]
  have nr: "\<not> returned s0" using st by (rule step_Some_running)
  show ?case
  proof (cases ev)
    case (Run n)
    with st ih nr step_Run_flag[of fetch n s0 s] show ?thesis by auto
  next
    case (Recv n)
    with st ih nr step_Recv_flag[of fetch n s0 s] show ?thesis by auto
  next
    case Tick
    with st ih nr show ?thesis by (auto simp: step_Tick_eq split: if_splits)
  qed
qed

lemma silence_ge1:
  "1 \<le> consecutive_silence es \<Longrightarrow>
     \<exists>a c. es = a @ Tick # c \<and> (\<forall>n. Recv n \<notin> set a)"
proof (induction es rule: consecutive_silence.induct)
  case 1
  then show ?case by simp
next
  case (2 n earlier)
  then show ?case by simp
next
  case (3 earlier)
  have "Tick # earlier = [] @ Tick # earlier \<and> (\<forall>n. Recv n \<notin> set [])" by simp
  then show ?case by blast
next
  case (4 n earlier)
  then obtain a c where "earlier = a @ Tick # c" "\<forall>n. Recv n \<notin> set a" by auto
  then have "Run n # earlier = (Run n # a) @ Tick # c \<and> (\<forall>m. Recv m \<notin> set (Run n # a))" by simp
  then show ?case by blast
qed

lemma silence_ge2:
  "2 \<le> consecutive_silence es \<Longrightarrow>
     \<exists>a b c. es = a @ Tick # b @ Tick # c \<and> (\<forall>n. Recv n \<notin> set a) \<and> (\<forall>n. Recv n \<notin> set b)"
proof (induction es rule: consecutive_silence.induct)
  case 1
  then show ?case by simp
next
  case (2 n earlier)
  then show ?case by simp
next
  case (3 earlier)
  then have "1 \<le> consecutive_silence earlier" by simp
  from silence_ge1[OF this] obtain b c where "earlier = b @ Tick # c" "\<forall>n. Recv n \<notin> set b" by blast
  then have "Tick # earlier = [] @ Tick # b @ Tick # c \<and> (\<forall>n. Recv n \<notin> set []) \<and> (\<forall>n. Recv n \<notin> set b)" by simp
  then show ?case by blast
next
  case (4 n earlier)
  then obtain a b c where "earlier = a @ Tick # b @ Tick # c" "\<forall>n. Recv n \<notin> set a" "\<forall>n. Recv n \<notin> set b" by auto
  then have "Run n # earlier = (Run n # a) @ Tick # b @ Tick # c \<and> (\<forall>m. Recv m \<notin> set (Run n # a)) \<and> (\<forall>n. Recv n \<notin> set b)" by simp
  then show ?case by blast
qed

lemma silence_two_ticks:
  assumes "2 \<le> consecutive_silence (rev evs)"
  shows "\<exists>pre mid post. evs = pre @ Tick # mid @ Tick # post \<and> (\<forall>n. Recv n \<notin> set mid)"
proof -
  from silence_ge2[OF assms] obtain a b c where
    e: "rev evs = a @ Tick # b @ Tick # c" and b: "\<forall>n. Recv n \<notin> set b" by blast
  from e have "rev (rev evs) = rev (a @ Tick # b @ Tick # c)" by simp
  then have "evs = rev c @ Tick # rev b @ Tick # rev a" by simp
  moreover have "\<forall>n. Recv n \<notin> set (rev b)" using b by simp
  ultimately show ?thesis by blast
qed

lemma silence_after_quiet_tick:
  "(\<forall>n. Recv n \<notin> set a) \<Longrightarrow> 1 \<le> consecutive_silence (a @ Tick # c)"
proof (induction a)
  case Nil
  then show ?case by simp
next
  case (Cons e a)
  then show ?case by (cases e) auto
qed

lemma run_returned_last_tick:
  "run fetch evs s0 = Some s \<Longrightarrow> \<not> returned s0 \<Longrightarrow> returned s \<Longrightarrow> \<exists>ini. evs = ini @ [Tick]"
proof (induction evs arbitrary: s rule: rev_induct)
  case Nil
  then show ?case by simp
next
  case (snoc ev evs)
  from snoc.prems(1) obtain s1 where st: "step fetch ev s1 = Some s"
    by (auto simp: run_append split: option.splits)
  show ?case
  proof (cases ev)
    case (Run n)
    with st step_Run_flag[of fetch n s1 s] snoc.prems(3) show ?thesis by simp
  next
    case (Recv n)
    with st step_Recv_flag[of fetch n s1 s] snoc.prems(3) show ?thesis by simp
  next
    case Tick
    then show ?thesis by simp
  qed
qed

lemma silence_last_tick:
  assumes "consecutive_silence (rev (ini @ [Tick])) = 2"
  shows "1 \<le> consecutive_silence (rev ini)"
  using assms by simp

lemma returned_iff_pattern:
  assumes inv: "consecutive_silence (rev evs) \<le> 2" and last: "consecutive_silence (rev evs) = 2 \<Longrightarrow> \<exists>ini. evs = ini @ [Tick]"
  shows "consecutive_silence (rev evs) = 2 \<longleftrightarrow>
     (\<exists>pre mid. evs = pre @ Tick # mid @ [Tick] \<and> (\<forall>n. Recv n \<notin> set mid))"
proof
  assume two: "consecutive_silence (rev evs) = 2"
  from last[OF two] obtain ini where ev: "evs = ini @ [Tick]" by blast
  from two ev have one: "1 \<le> consecutive_silence (rev ini)" by simp
  from silence_ge1[OF one] obtain a c where ac: "rev ini = a @ Tick # c" and na: "\<forall>n. Recv n \<notin> set a"
    by blast
  from ac have "rev (rev ini) = rev (a @ Tick # c)" by (rule arg_cong)
  then have "ini = rev c @ Tick # rev a" by simp
  with ev have "evs = rev c @ Tick # rev a @ [Tick]" by simp
  moreover have "\<forall>n. Recv n \<notin> set (rev a)" using na by simp
  ultimately show "\<exists>pre mid. evs = pre @ Tick # mid @ [Tick] \<and> (\<forall>n. Recv n \<notin> set mid)" by blast
next
  assume "\<exists>pre mid. evs = pre @ Tick # mid @ [Tick] \<and> (\<forall>n. Recv n \<notin> set mid)"
  then obtain pre mid where ev: "evs = pre @ Tick # mid @ [Tick]" and nm: "\<forall>n. Recv n \<notin> set mid"
    by blast
  have "\<forall>n. Recv n \<notin> set (rev mid)" using nm by simp
  from silence_after_quiet_tick[OF this]
  have "1 \<le> consecutive_silence (rev mid @ Tick # rev pre)" .
  with ev have "2 \<le> consecutive_silence (rev evs)" by simp
  with inv show "consecutive_silence (rev evs) = 2" by simp
qed

text \<open>
  Claim C6. Along every run of the crawl, \<^verbatim>\<open>crawl\<close> has returned exactly when the spec's
  counter of consecutive silent intervals has reached two, which is exactly when the run
  ends with a tick that follows an earlier tick with no queue arrival in between. While
  the crawl runs, \<open>flag\<close> is set exactly when the counter is one: after one silent tick
  the scheduler is still running, and the next tick makes it return. Every queue arrival
  leaves the scheduler running with the flag cleared and the counter at zero. If a queue
  arrival lies between any two ticks, \<^verbatim>\<open>crawl\<close> has not returned.
\<close>

theorem scheduler_two_silent_ticks:
  assumes "crawl fetch url evs = Some s"
  shows "(returned s \<longleftrightarrow> consecutive_silence (rev evs) = 2)
    \<and> (returned s \<longleftrightarrow> (\<exists>pre mid. evs = pre @ Tick # mid @ [Tick] \<and> (\<forall>n. Recv n \<notin> set mid)))
    \<and> (\<not> returned s \<longrightarrow> (flag s \<longleftrightarrow> consecutive_silence (rev evs) = 1))
    \<and> (\<not> returned s \<longrightarrow> \<not> flag s \<longrightarrow> step fetch Tick s = Some (s\<lparr>flag := True\<rparr>))
    \<and> (\<not> returned s \<longrightarrow> flag s \<longrightarrow> (\<exists>s'. step fetch Tick s = Some s' \<and> returned s'))
    \<and> (\<forall>n s'. step fetch (Recv n) s = Some s' \<longrightarrow>
          \<not> returned s' \<and> \<not> flag s' \<and> consecutive_silence (rev (evs @ [Recv n])) = 0)
    \<and> ((\<forall>pre mid post. evs = pre @ Tick # mid @ Tick # post \<longrightarrow> (\<exists>n. Recv n \<in> set mid))
          \<longrightarrow> \<not> returned s)"
proof -
  from assms have r: "run fetch evs (crawl_init url) = Some s" by (simp add: crawl_def)
  note inv = run_silence[OF r]
  have c1: "returned s \<longleftrightarrow> consecutive_silence (rev evs) = 2" using inv by blast
  have c3: "\<not> returned s \<longrightarrow> (flag s \<longleftrightarrow> consecutive_silence (rev evs) = 1)" using inv by blast
  have le: "consecutive_silence (rev evs) \<le> 2" using inv by blast
  have n0: "\<not> returned (crawl_init url)" by (simp add: crawl_init_def)
  have last: "consecutive_silence (rev evs) = 2 \<Longrightarrow> \<exists>ini. evs = ini @ [Tick]"
    using run_returned_last_tick[OF r n0] c1 by blast
  have c2: "returned s \<longleftrightarrow> (\<exists>pre mid. evs = pre @ Tick # mid @ [Tick] \<and> (\<forall>n. Recv n \<notin> set mid))"
    using returned_iff_pattern[OF le last] c1 by simp
  have c4: "\<not> returned s \<longrightarrow> \<not> flag s \<longrightarrow> step fetch Tick s = Some (s\<lparr>flag := True\<rparr>)"
    by (simp add: step_Tick_eq)
  have c5: "\<not> returned s \<longrightarrow> flag s \<longrightarrow> (\<exists>s'. step fetch Tick s = Some s' \<and> returned s')"
    by (simp add: step_Tick_eq)
  have c6: "\<forall>n s'. step fetch (Recv n) s = Some s' \<longrightarrow>
          \<not> returned s' \<and> \<not> flag s' \<and> consecutive_silence (rev (evs @ [Recv n])) = 0"
  proof (intro allI impI)
    fix n s' assume "step fetch (Recv n) s = Some s'"
    from step_Recv_flag[OF this]
    show "\<not> returned s' \<and> \<not> flag s' \<and> consecutive_silence (rev (evs @ [Recv n])) = 0"
      by simp
  qed
  have c7: "(\<forall>pre mid post. evs = pre @ Tick # mid @ Tick # post \<longrightarrow> (\<exists>n. Recv n \<in> set mid))
          \<longrightarrow> \<not> returned s"
  proof (intro impI notI)
    assume a: "\<forall>pre mid post. evs = pre @ Tick # mid @ Tick # post \<longrightarrow> (\<exists>n. Recv n \<in> set mid)"
    assume "returned s"
    then have "2 \<le> consecutive_silence (rev evs)" using c1 by simp
    from silence_two_ticks[OF this] a show False by blast
  qed
  show ?thesis
    by (intro conjI) (rule c1, rule c2, rule c3, rule c4, rule c5, rule c6, rule c7)
qed

theorem scheduler_two_silent_ticks_witness:
  "\<exists>s. crawl failing ''https://example.com'' [Run 0, Tick, Tick] = Some s
      \<and> returned s \<and> consecutive_silence (rev [Run 0, Tick, Tick]) = 2"
proof -
  obtain s where h: "crawl failing ''https://example.com'' [Run 0, Tick, Tick] = Some s"
    by (simp add: crawl_def crawl_init_def step_def fetchUrl_def failing_def remove_nth_def)
  have "consecutive_silence (rev [Run 0, Tick, Tick]) = 2" by simp
  with scheduler_two_silent_ticks[OF h] h show ?thesis by blast
qed

text \<open>
  Claim C1: a URL is admitted at most once. The code checks \<^verbatim>\<open>IsNew\<close> in the
  scheduler loop and marks the URL in the goroutine it dispatches, so the claim fails in
  every run where a second arrival of a URL is received before the goroutine dispatched
  for the first one has run. On the site \<open>shared_link_site\<close>
  the pages \<open>/a\<close> and \<open>/b\<close> both send \<open>/u\<close>; the scheduler receives both before either
  goroutine for \<open>/u\<close> has run, \<^verbatim>\<open>IsNew\<close> answers true twice, two goroutines are
  dispatched for \<open>/u\<close>, and \<open>/u\<close> is fetched twice.
\<close>

theorem same_url_dispatched_twice:
  "(\<exists>s. crawl shared_link_site ''https://e.com''
          [Run 0, Recv 0, Recv 0, Run 0, Run 0, Recv 0, Recv 0] = Some s
        \<and> spawned s = [''https://e.com/u'', ''https://e.com/u''])
   \<and> map_option fetches
       (crawl shared_link_site ''https://e.com''
          [Run 0, Recv 0, Recv 0, Run 0, Run 0, Recv 0, Recv 0, Run 0, Run 0])
     = Some [''https://e.com'', ''https://e.com/a'', ''https://e.com/b'',
             ''https://e.com/u'', ''https://e.com/u'']"
  by (simp add: crawl_def crawl_init_def step_def fetchUrl_def MarkAsProcessed_def IsNew_def
      shared_link_site_def remove_nth_def)

text \<open>
  Claim C9: what \<^verbatim>\<open>fetchUrl\<close> does when the fetch fails. It marks the URL, prints
  nothing and sends nothing on the queue: the failure is not logged, no finding is
  reported and no URL is queued. The scheduler still returns after two silent ticks.
\<close>

theorem failed_fetch_writes_nothing:
  "fetchUrl failing url r = (MarkAsProcessed r url, [], [])
   \<and> map_option (\<lambda>s. (stdout s, sending s, spawned s, fetches s))
       (crawl failing ''https://down.example.com'' [Run 0])
     = Some ([], [], [], [''https://down.example.com''])
   \<and> map_option returned (crawl failing ''https://down.example.com'' [Run 0, Tick, Tick])
     = Some True"
  by (simp add: crawl_def crawl_init_def step_def fetchUrl_def failing_def remove_nth_def)

text \<open>
  Claim C8, as stated, fails for a malformed start URL: with the argument
  \<^verbatim>\<open>example.com\<close> (no scheme) the crawl starts, the retrieval is attempted, and the
  process ends with exit code 0.
\<close>

theorem malformed_start_url_is_crawled:
  "map_option exit_code (main failing [''example.com''] [Run 0, Tick, Tick]) = Some (Some 0)
   \<and> map_option attempted (main failing [''example.com''] [Run 0, Tick, Tick]) = Some [''example.com'']"
  by (simp add: main_def startUrl_def crawl_def crawl_init_def step_def fetchUrl_def failing_def
      remove_nth_def)

text \<open>
  Claim C8, amended. Without an argument the process prints the usage error and exits
  with code 1 before any retrieval. With an argument, whatever it is, the crawl runs on
  it as given; the exit code is never 1, and it is 0 exactly when \<^verbatim>\<open>crawl\<close> has
  returned.
\<close>

theorem exit_code_by_argument_count:
  "main fetch [] evs = Some \<lparr>printed = [ErrorLine ErrUsage], exit_code = Some 1, attempted = []\<rparr>
   \<and> (\<forall>p. main fetch args evs = Some p \<longrightarrow>
        (exit_code p = Some 1 \<longleftrightarrow> args = [])
      \<and> (exit_code p = Some 0 \<longleftrightarrow>
           args \<noteq> [] \<and> (\<exists>s. crawl fetch (hd args) evs = Some s \<and> returned s))
      \<and> (args \<noteq> [] \<longrightarrow> (\<exists>s. crawl fetch (hd args) evs = Some s \<and> attempted p = fetches s
             \<and> printed p = stdout s)))"
proof -
  have a: "main fetch [] evs = Some \<lparr>printed = [ErrorLine ErrUsage], exit_code = Some 1, attempted = []\<rparr>"
    by (simp add: main_def startUrl_def)
  have b: "\<forall>p. main fetch args evs = Some p \<longrightarrow>
        (exit_code p = Some 1 \<longleftrightarrow> args = [])
      \<and> (exit_code p = Some 0 \<longleftrightarrow>
           args \<noteq> [] \<and> (\<exists>s. crawl fetch (hd args) evs = Some s \<and> returned s))
      \<and> (args \<noteq> [] \<longrightarrow> (\<exists>s. crawl fetch (hd args) evs = Some s \<and> attempted p = fetches s
             \<and> printed p = stdout s))"
  proof (cases args)
    case Nil
    then show ?thesis by (auto simp: main_def startUrl_def)
  next
    case (Cons a rest)
    then show ?thesis by (auto simp: main_def startUrl_def split: option.splits)
  qed
  from a b show ?thesis by (rule conjI)
qed

theorem exit_code_by_argument_count_witness:
  "\<exists>p. main failing [''example.com''] [Run 0, Tick, Tick] = Some p \<and> exit_code p = Some 0
       \<and> exit_code p \<noteq> Some 1"
proof -
  obtain p where h: "main failing [''example.com''] [Run 0, Tick, Tick] = Some p"
    by (simp add: main_def startUrl_def crawl_def crawl_init_def step_def fetchUrl_def failing_def
      remove_nth_def)
  from exit_code_by_argument_count[of failing "[Run 0, Tick, Tick]" "[''example.com'']"] h
  have "exit_code p = Some 1 \<longleftrightarrow> [''example.com''] = ([]::string list)" by blast
  then have n1: "exit_code p \<noteq> Some 1" by simp
  have "map_option exit_code (main failing [''example.com''] [Run 0, Tick, Tick]) = Some (Some 0)"
    by (simp add: main_def startUrl_def crawl_def crawl_init_def step_def fetchUrl_def failing_def
      remove_nth_def)
  with h have "exit_code p = Some 0" by simp
  with h n1 show ?thesis by blast
qed

end
